theory Spec2Isabelle
  imports Main "HOL-Library.Word"
begin

section \<open>The stack watermark of \<^verbatim>\<open>runtime/stackWatermark.cpp\<close>\<close>

text \<open>
  A shallow embedding of \<^verbatim>\<open>StackWatermarkIterator\<close> (the frame cursor) and
  \<^verbatim>\<open>StackWatermark\<close> (the watermark controller). Member functions take the object
  and return it updated. What the file only consumes is a parameter of the model:
  \<^item> \<open>chk\<close>: whether \<^verbatim>\<open>assert\<close> is compiled in (a checked build);
  \<^item> \<open>eid\<close>: the value of the virtual \<^verbatim>\<open>epoch_id()\<close>, the global epoch;
  \<^item> \<open>jt\<close>: the thread, as the frames a \<^verbatim>\<open>StackFrameStream\<close> enumerates, top first;
  \<^item> \<open>sender\<close>: \<^verbatim>\<open>frame::sender\<close>.
  The effects on the outside (the \<^verbatim>\<open>process\<close> callback, the release stores, the lock)
  are appended to a trace kept with the controller. Logging and the handle, resource and
  exception marks have no effect on the modelled state and are left out.
\<close>

subsection \<open>Data\<close>

type_synonym uintptr_t = "64 word"
type_synonym uint32_t = "32 word"

text \<open>The \<^verbatim>\<open>void* context\<close> handed to the callback; \<^verbatim>\<open>NULL\<close> is \<open>0\<close>.\<close>

type_synonym void_ptr = uintptr_t

text \<open>
  A \<^verbatim>\<open>frame\<close>, as far as this file looks at it: \<^verbatim>\<open>f.sp()\<close>,
  \<^verbatim>\<open>StackWatermark::has_barrier(f)\<close> and \<^verbatim>\<open>f.is_safepoint_blob_frame()\<close>.
\<close>

record frame =
  sp :: uintptr_t
  has_barrier :: bool
  is_safepoint_blob_frame :: bool

text \<open>
  Modelled from the spec: \<^verbatim>\<open>StackWatermarkState\<close> (\<^verbatim>\<open>create\<close>, \<^verbatim>\<open>epoch\<close>,
  \<^verbatim>\<open>is_done\<close>) is declared in a header that is not among the sources. The spec has
  it pack the pair (epoch, done) into one atomically accessed value.
\<close>

datatype StackWatermarkState = create (epoch: uint32_t) (is_done: bool)

text \<open>
  Modelled from the spec: \<^verbatim>\<open>JavaThread\<close> and \<^verbatim>\<open>StackFrameStream\<close> are not among the
  sources. The frame walker enumerates the frames of a thread from top to bottom; a
  thread has a last Java frame when it has stack frames.
\<close>

record JavaThread =
  frames :: "frame list"

definition has_last_Java_frame :: "JavaThread \<Rightarrow> bool" where
  "has_last_Java_frame jt = (frames jt \<noteq> [])"

text \<open>The three \<^verbatim>\<open>assert\<close>s of the file, by their messages and conditions.\<close>

datatype error = Assert_invariant | Assert_sanity | Assert_lock_owned_by_self

datatype event =
    Lock_acquire
  | Lock_release
  | Process frame void_ptr
  | Release_store_watermark uintptr_t
  | Release_store_state StackWatermarkState

text \<open>
  \<^verbatim>\<open>StackWatermarkIterator\<close>. The field \<^verbatim>\<open>_is_done\<close> caches
  \<^verbatim>\<open>_frame_stream.is_done()\<close>: the constructor and \<^verbatim>\<open>next()\<close> set it, nothing else
  does, so it is read off the stream here. \<^verbatim>\<open>_jt\<close> and \<^verbatim>\<open>_owner\<close> are passed
  where they are used.
\<close>

record StackWatermarkIterator =
  caller :: uintptr_t
  callee :: uintptr_t
  frame_stream :: "frame list"

text \<open>
  \<^verbatim>\<open>StackWatermark\<close>. \<^verbatim>\<open>_jt\<close> is a parameter of the operations, \<^verbatim>\<open>_next\<close> and
  \<^verbatim>\<open>_kind\<close> are not read in this file. \<open>lock_owned\<close> is \<^verbatim>\<open>_lock.owned_by_self()\<close>:
  the model runs one caller at a time, so the lock is a flag that locking sets and
  unlocking clears, and each change is recorded in the trace.
\<close>

record StackWatermark =
  state :: StackWatermarkState
  watermark :: uintptr_t
  iterator :: "StackWatermarkIterator option"
  lock_owned :: bool
  trace :: "event list"

subsection \<open>The frame cursor\<close>

definition StackWatermarkIterator_new :: "JavaThread \<Rightarrow> StackWatermarkIterator" where
  "StackWatermarkIterator_new jt = \<lparr>caller = 0, callee = 0, frame_stream = frames jt\<rparr>"

definition has_next :: "StackWatermarkIterator \<Rightarrow> bool" where
  "has_next it = (frame_stream it \<noteq> [])"

text \<open>\<^verbatim>\<open>current()\<close> is only called under \<^verbatim>\<open>has_next()\<close>.\<close>

definition current :: "StackWatermarkIterator \<Rightarrow> frame" where
  "current it = hd (frame_stream it)"

definition next_frame :: "StackWatermarkIterator \<Rightarrow> StackWatermarkIterator" where
  "next_frame it = it\<lparr>frame_stream := tl (frame_stream it)\<rparr>"

definition set_watermark :: "uintptr_t \<Rightarrow> StackWatermarkIterator \<Rightarrow> StackWatermarkIterator" where
  "set_watermark a it =
     (if \<not> has_next it then it
      else if callee it = 0 then it\<lparr>callee := a\<rparr>
      else if caller it = 0 then it\<lparr>caller := a\<rparr>
      else it\<lparr>callee := caller it, caller := a\<rparr>)"

text \<open>
  The loop of \<^verbatim>\<open>StackWatermarkIterator::process_one\<close>, on the local \<^verbatim>\<open>sp\<close>, the
  cursor and the callback invocations made so far.
\<close>

function process_one_loop ::
  "void_ptr \<Rightarrow> uintptr_t \<Rightarrow> StackWatermarkIterator \<Rightarrow> event list
     \<Rightarrow> uintptr_t \<times> StackWatermarkIterator \<times> event list" where
  "process_one_loop ctx a it evs =
     (if has_next it then
        (let f = current it;
             a' = sp f;
             frame_has_barrier = has_barrier f;
             evs' = evs @ [Process f ctx];
             it' = next_frame it
         in if frame_has_barrier then (a', it', evs')
            else process_one_loop ctx a' it' evs')
      else (a, it, evs))"
  by pat_completeness auto
termination
  by (relation "measure (\<lambda>(ctx, a, it, evs). length (frame_stream it))")
     (auto simp: has_next_def next_frame_def)

declare process_one_loop.simps [simp del]

definition iter_process_one ::
  "void_ptr \<Rightarrow> StackWatermarkIterator \<Rightarrow> StackWatermarkIterator \<times> event list" where
  "iter_process_one ctx it =
     (case process_one_loop ctx 0 it [] of (a, it', evs) \<Rightarrow> (set_watermark a it', evs))"

subsection \<open>The controller\<close>

definition StackWatermark_new :: "uint32_t \<Rightarrow> StackWatermark" where
  "StackWatermark_new e =
     \<lparr>state = create e True, watermark = 0, iterator = None, lock_owned = False, trace = []\<rparr>"

text \<open>\<^verbatim>\<open>MutexLocker\<close>: its constructor and its destructor.\<close>

definition lock :: "StackWatermark \<Rightarrow> StackWatermark" where
  "lock w = w\<lparr>lock_owned := True, trace := trace w @ [Lock_acquire]\<rparr>"

definition unlock :: "StackWatermark \<Rightarrow> StackWatermark" where
  "unlock w = w\<lparr>lock_owned := False, trace := trace w @ [Lock_release]\<rparr>"

definition then_unlock :: "error + StackWatermark \<Rightarrow> error + StackWatermark" where
  "then_unlock r = (case r of Inl e \<Rightarrow> Inl e | Inr w \<Rightarrow> Inr (unlock w))"

text \<open>\<^verbatim>\<open>MutexUnlocker\<close> in a block that ends at once: unlock, then lock again.\<close>

definition MutexUnlocker :: "StackWatermark \<Rightarrow> StackWatermark" where
  "MutexUnlocker w = lock (unlock w)"

definition release_store_watermark :: "uintptr_t \<Rightarrow> StackWatermark \<Rightarrow> StackWatermark" where
  "release_store_watermark a w = w\<lparr>watermark := a, trace := trace w @ [Release_store_watermark a]\<rparr>"

definition release_store_state :: "StackWatermarkState \<Rightarrow> StackWatermark \<Rightarrow> StackWatermark" where
  "release_store_state s w = w\<lparr>state := s, trace := trace w @ [Release_store_state s]\<rparr>"

definition update_watermark :: "bool \<Rightarrow> uint32_t \<Rightarrow> StackWatermark \<Rightarrow> error + StackWatermark" where
  "update_watermark chk eid w =
     (if chk \<and> \<not> lock_owned w then Inl Assert_lock_owned_by_self
      else if iterator w \<noteq> None \<and> has_next (the (iterator w)) then
        (if chk \<and> callee (the (iterator w)) = 0 then Inl Assert_sanity
         else Inr (release_store_state (create eid False)
                    (release_store_watermark (callee (the (iterator w))) w)))
      else Inr (release_store_state (create eid True) (release_store_watermark 0 w)))"

text \<open>
  \<^verbatim>\<open>_iterator->process_one(context)\<close>, seen from the controller: the cursor is
  replaced by the advanced one and the callback invocations are recorded.
\<close>

definition iterator_process_one :: "void_ptr \<Rightarrow> StackWatermark \<Rightarrow> StackWatermark" where
  "iterator_process_one ctx w =
     (case iterator w of
        None \<Rightarrow> w
      | Some it \<Rightarrow>
          (case iter_process_one ctx it of
             (it', evs) \<Rightarrow> w\<lparr>iterator := Some it', trace := trace w @ evs\<rparr>))"

text \<open>
  The loop of \<^verbatim>\<open>StackWatermarkIterator::process_all\<close>. The cursor is the owner's
  \<^verbatim>\<open>_iterator\<close>, and the loop calls back into the owner, so it runs on the controller;
  the only caller, \<^verbatim>\<open>finish_iteration\<close>, makes the call when \<^verbatim>\<open>_iterator\<close> is not
  \<^verbatim>\<open>NULL\<close>, and without a cursor the model returns at once.
  \<open>i\<close> is the local counter of barrier frames since the last yield.
\<close>

lemma update_watermark_iterator:
  "update_watermark chk eid w = Inr w' \<Longrightarrow> iterator w' = iterator w"
  by (auto simp: update_watermark_def release_store_state_def release_store_watermark_def
           split: if_splits)

function process_all_loop ::
  "bool \<Rightarrow> uint32_t \<Rightarrow> void_ptr \<Rightarrow> uint32_t \<Rightarrow> StackWatermark \<Rightarrow> error + StackWatermark" where
  "process_all_loop chk eid ctx i w =
     (case iterator w of
        None \<Rightarrow> Inr w
      | Some it \<Rightarrow>
          if has_next it then
            (let f = current it in
             if chk \<and> \<not> (sp f \<ge> caller it) then Inl Assert_invariant
             else
               (let a = sp f;
                    frame_has_barrier = has_barrier f;
                    w1 = w\<lparr>trace := trace w @ [Process f ctx]\<rparr>;
                    it1 = next_frame it
                in if frame_has_barrier then
                     (let w2 = w1\<lparr>iterator := Some (set_watermark a it1)\<rparr> in
                      if i + 1 = 5 then
                        (case update_watermark chk eid w2 of
                           Inl e \<Rightarrow> Inl e
                         | Inr w3 \<Rightarrow> process_all_loop chk eid ctx 0 (MutexUnlocker w3))
                      else process_all_loop chk eid ctx (i + 1) w2)
                   else process_all_loop chk eid ctx i (w1\<lparr>iterator := Some it1\<rparr>)))
          else Inr w)"
  by pat_completeness auto
termination
proof (relation "measure (\<lambda>(chk, eid, ctx, i, w).
         case iterator w of None \<Rightarrow> 0 | Some it \<Rightarrow> length (frame_stream it))")
  show "wf (measure (\<lambda>(chk, eid, ctx, i, w).
         case iterator w of None \<Rightarrow> 0 | Some it \<Rightarrow> length (frame_stream it)))"
    by simp
qed (auto simp: has_next_def next_frame_def set_watermark_def MutexUnlocker_def lock_def
       unlock_def dest!: update_watermark_iterator)

declare process_all_loop.simps [simp del]

definition iter_process_all :: "bool \<Rightarrow> uint32_t \<Rightarrow> void_ptr \<Rightarrow> StackWatermark \<Rightarrow> error + StackWatermark" where
  "iter_process_all chk eid ctx w = process_all_loop chk eid ctx 0 w"

definition should_start_iteration :: "uint32_t \<Rightarrow> StackWatermark \<Rightarrow> bool" where
  "should_start_iteration eid w = (epoch (state w) \<noteq> eid)"

definition should_start_iteration_acquire :: "uint32_t \<Rightarrow> StackWatermark \<Rightarrow> bool" where
  "should_start_iteration_acquire eid w = (epoch (state w) \<noteq> eid)"

definition start_iteration_impl ::
  "bool \<Rightarrow> uint32_t \<Rightarrow> JavaThread \<Rightarrow> void_ptr \<Rightarrow> StackWatermark \<Rightarrow> error + StackWatermark" where
  "start_iteration_impl chk eid jt ctx w =
     (if has_last_Java_frame jt then
        update_watermark chk eid
          (iterator_process_one ctx
            (iterator_process_one ctx
              (iterator_process_one ctx
                (w\<lparr>iterator := Some (StackWatermarkIterator_new jt)\<rparr>))))
      else update_watermark chk eid (w\<lparr>iterator := None\<rparr>))"

definition is_frame_safe ::
  "(frame \<Rightarrow> frame) \<Rightarrow> uint32_t \<Rightarrow> frame \<Rightarrow> StackWatermark \<Rightarrow> bool \<times> StackWatermark" where
  "is_frame_safe sender eid fr w =
     (let w1 = lock w;
          s = state w1;
          r = (if epoch s \<noteq> eid then False
               else if is_done s then True
               else if iterator w1 \<noteq> None then
                 (let fr' = (if is_safepoint_blob_frame fr then sender fr else fr)
                  in sp fr' < caller (the (iterator w1)))
               else True)
      in (r, unlock w1))"

definition process_one :: "bool \<Rightarrow> uint32_t \<Rightarrow> JavaThread \<Rightarrow> StackWatermark \<Rightarrow> error + StackWatermark" where
  "process_one chk eid jt w =
     (let w1 = lock w in
      then_unlock
        (if should_start_iteration eid w1 then start_iteration_impl chk eid jt 0 w1
         else if iterator w1 \<noteq> None then update_watermark chk eid (iterator_process_one 0 w1)
         else Inr w1))"

definition last_processed :: "uint32_t \<Rightarrow> StackWatermark \<Rightarrow> uintptr_t \<times> StackWatermark" where
  "last_processed eid w =
     (let w1 = lock w;
          r = (if should_start_iteration eid w1 then 0
               else if watermark w1 = 0 then 0
               else if iterator w1 = None then 0
               else caller (the (iterator w1)))
      in (r, unlock w1))"

definition start_iteration :: "bool \<Rightarrow> uint32_t \<Rightarrow> JavaThread \<Rightarrow> StackWatermark \<Rightarrow> error + StackWatermark" where
  "start_iteration chk eid jt w =
     (if should_start_iteration_acquire eid w then
        (let w1 = lock w in
         then_unlock
           (if should_start_iteration eid w1 then start_iteration_impl chk eid jt 0 w1
            else Inr w1))
      else Inr w)"

definition finish_iteration ::
  "bool \<Rightarrow> uint32_t \<Rightarrow> JavaThread \<Rightarrow> void_ptr \<Rightarrow> StackWatermark \<Rightarrow> error + StackWatermark" where
  "finish_iteration chk eid jt ctx w =
     (let w1 = lock w in
      case (if should_start_iteration eid w1 then start_iteration_impl chk eid jt ctx w1
            else Inr w1) of
        Inl e \<Rightarrow> Inl e
      | Inr w2 \<Rightarrow>
          (case (if iterator w2 \<noteq> None then iter_process_all chk eid ctx w2 else Inr w2) of
             Inl e \<Rightarrow> Inl e
           | Inr w3 \<Rightarrow> then_unlock (update_watermark chk eid w3)))"

section \<open>Notions used to state the properties\<close>

subsection \<open>Well-formed stacks\<close>

text \<open>
  A stack pointer is never null; \<^verbatim>\<open>update_watermark\<close> asserts as much of the callee it
  publishes (``sanity'').
\<close>

definition frames_nonnull :: "frame list \<Rightarrow> bool" where
  "frames_nonnull fs = (\<forall>f\<in>set fs. sp f \<noteq> 0)"

text \<open>
  The walker's precondition on a cursor: the frames still to visit come from the top of
  the stack to its bottom, addresses increasing, none of them below the caller boundary.
\<close>

definition walk_ordered :: "StackWatermarkIterator \<Rightarrow> bool" where
  "walk_ordered it =
     (sorted (map sp (frame_stream it)) \<and> (\<forall>f\<in>set (frame_stream it). caller it \<le> sp f))"


definition cursor_has_unvisited :: "StackWatermark \<Rightarrow> bool" where
  "cursor_has_unvisited w = (case iterator w of None \<Rightarrow> False | Some it \<Rightarrow> has_next it)"

subsection \<open>One step of the cursor\<close>

text \<open>
  The frames one \<^verbatim>\<open>process_one\<close> visits, the remaining frames up to and including the
  first barrier frame, and the frames it leaves.
\<close>

fun step_frames :: "frame list \<Rightarrow> frame list" where
  "step_frames [] = []"
| "step_frames (f # fs) = (if has_barrier f then [f] else f # step_frames fs)"

fun step_rest :: "frame list \<Rightarrow> frame list" where
  "step_rest [] = []"
| "step_rest (f # fs) = (if has_barrier f then fs else step_rest fs)"

primrec steps_frames :: "nat \<Rightarrow> frame list \<Rightarrow> frame list" where
  "steps_frames 0 fs = []"
| "steps_frames (Suc n) fs = step_frames fs @ steps_frames n (step_rest fs)"

primrec steps_rest :: "nat \<Rightarrow> frame list \<Rightarrow> frame list" where
  "steps_rest 0 fs = fs"
| "steps_rest (Suc n) fs = steps_rest n (step_rest fs)"

text \<open>The cursor after one \<^verbatim>\<open>process_one\<close>, and after \<open>n\<close> of them.\<close>

definition advance :: "void_ptr \<Rightarrow> StackWatermarkIterator \<Rightarrow> StackWatermarkIterator" where
  "advance ctx it = fst (iter_process_one ctx it)"

primrec process_one_times :: "nat \<Rightarrow> void_ptr \<Rightarrow> StackWatermarkIterator \<Rightarrow> StackWatermarkIterator" where
  "process_one_times 0 ctx it = it"
| "process_one_times (Suc n) ctx it = process_one_times n ctx (advance ctx it)"

subsection \<open>Publishing and draining\<close>

text \<open>The two stores by which \<^verbatim>\<open>update_watermark\<close> publishes the boundary of a cursor.\<close>

definition publish_events :: "uint32_t \<Rightarrow> StackWatermarkIterator \<Rightarrow> event list" where
  "publish_events eid it =
     (if has_next it
      then [Release_store_watermark (callee it), Release_store_state (create eid False)]
      else [Release_store_watermark 0, Release_store_state (create eid True)])"

text \<open>
  The drain as the spec words it: every remaining frame is processed in turn; a barrier
  frame is folded into the boundary; after every fifth barrier frame (\<open>n\<close> counts them)
  the boundary is published and the lock is released and taken again.
\<close>

fun drain_events ::
  "uint32_t \<Rightarrow> void_ptr \<Rightarrow> nat \<Rightarrow> StackWatermarkIterator \<Rightarrow> frame list \<Rightarrow> event list" where
  "drain_events eid ctx n it [] = []"
| "drain_events eid ctx n it (f # fs) =
     Process f ctx #
     (if has_barrier f then
        (if Suc n mod 5 = 0
         then publish_events eid (set_watermark (sp f) (it\<lparr>frame_stream := fs\<rparr>)) @
              [Lock_release, Lock_acquire]
         else []) @
        drain_events eid ctx (Suc n) (set_watermark (sp f) (it\<lparr>frame_stream := fs\<rparr>)) fs
      else drain_events eid ctx n (it\<lparr>frame_stream := fs\<rparr>) fs)"

fun drain_cursor :: "StackWatermarkIterator \<Rightarrow> frame list \<Rightarrow> StackWatermarkIterator" where
  "drain_cursor it [] = it"
| "drain_cursor it (f # fs) =
     drain_cursor (if has_barrier f then set_watermark (sp f) (it\<lparr>frame_stream := fs\<rparr>)
                   else it\<lparr>frame_stream := fs\<rparr>) fs"

subsection \<open>Concrete frames\<close>

definition frame_at :: "uintptr_t \<Rightarrow> bool \<Rightarrow> frame" where
  "frame_at a b = \<lparr>sp = a, has_barrier = b, is_safepoint_blob_frame = False\<rparr>"

subsection \<open>What a trace shows\<close>

text \<open>The callback invocations in a trace, in order.\<close>

fun processed :: "event list \<Rightarrow> (frame \<times> void_ptr) list" where
  "processed [] = []"
| "processed (Process f c # es) = (f, c) # processed es"
| "processed (e # es) = processed es"

text \<open>
  The frames \<^verbatim>\<open>finish_iteration\<close> has to process: all frames of the thread when the
  epoch is stale and a new iteration starts, the cursor's remaining frames otherwise.
\<close>

definition frames_to_finish :: "uint32_t \<Rightarrow> JavaThread \<Rightarrow> StackWatermark \<Rightarrow> frame list" where
  "frames_to_finish eid jt w =
     (if epoch (state w) \<noteq> eid then frames jt
      else (case iterator w of None \<Rightarrow> [] | Some it \<Rightarrow> frame_stream it))"

text \<open>
  No more than \<open>k\<close> barrier frames are processed between two releases of the lock;
  \<open>n\<close> is the number processed since the last release.
\<close>

fun lock_hold_bounded :: "nat \<Rightarrow> nat \<Rightarrow> event list \<Rightarrow> bool" where
  "lock_hold_bounded k n [] = True"
| "lock_hold_bounded k n (Lock_release # es) = lock_hold_bounded k 0 es"
| "lock_hold_bounded k n (Process f c # es) =
     (if has_barrier f then Suc n \<le> k \<and> lock_hold_bounded k (Suc n) es
      else lock_hold_bounded k n es)"
| "lock_hold_bounded k n (e # es) = lock_hold_bounded k n es"

subsection \<open>The two-slot ring\<close>

text \<open>The boundary pair of a cursor, callee first.\<close>

definition boundary :: "StackWatermarkIterator \<Rightarrow> uintptr_t \<times> uintptr_t" where
  "boundary it = (callee it, caller it)"

text \<open>
  The ring as the spec words it, by the number \<open>k\<close> of folds made before: the first fold
  sets the callee, the second the caller, every later one shifts the caller into the
  callee and takes the new address as caller.
\<close>

definition ring_fold :: "nat \<Rightarrow> uintptr_t \<times> uintptr_t \<Rightarrow> uintptr_t \<Rightarrow> uintptr_t \<times> uintptr_t" where
  "ring_fold k b a = (if k = 0 then (a, snd b) else if k = 1 then (fst b, a) else (snd b, a))"

fun ring_folds :: "nat \<Rightarrow> uintptr_t \<times> uintptr_t \<Rightarrow> uintptr_t list \<Rightarrow> uintptr_t \<times> uintptr_t" where
  "ring_folds k b [] = b"
| "ring_folds k b (a # as) = ring_folds (Suc k) (ring_fold k b a) as"

text \<open>
  The addresses a walk over \<open>fs\<close> folds: those of the barrier frames, the last frame of
  the stack left out (\<^verbatim>\<open>set_watermark\<close> returns early once no frame remains).
\<close>

definition folded_addresses :: "frame list \<Rightarrow> uintptr_t list" where
  "folded_addresses fs = map sp (filter has_barrier (butlast fs))"

definition step_fold :: "frame list \<Rightarrow> uintptr_t list" where
  "step_fold fs = (if step_rest fs = [] then [] else [sp (last (step_frames fs))])"

definition ring_inv :: "uintptr_t list \<Rightarrow> StackWatermarkIterator \<Rightarrow> bool" where
  "ring_inv as it =
     (boundary it = ring_folds 0 (0, 0) as \<and> (callee it = 0 \<longleftrightarrow> as = []) \<and>
      (caller it = 0 \<longleftrightarrow> length as < 2))"

subsection \<open>Reachable controllers\<close>

definition published_consistent :: "StackWatermark \<Rightarrow> bool" where
  "published_consistent w = ((watermark w = 0) = is_done (state w))"

definition cursor_nonnull :: "StackWatermark \<Rightarrow> bool" where
  "cursor_nonnull w = (case iterator w of None \<Rightarrow> True | Some it \<Rightarrow> frames_nonnull (frame_stream it))"

text \<open>
  The controllers that exist after construction and any number of completed public
  operations, each called with some global epoch on a thread whose frames have non-null
  stack pointers.
\<close>

inductive reachable :: "bool \<Rightarrow> StackWatermark \<Rightarrow> bool" for chk :: bool where
  construct: "reachable chk (StackWatermark_new e)"
| start_iteration:
    "reachable chk w \<Longrightarrow> frames_nonnull (frames jt) \<Longrightarrow>
     start_iteration chk eid jt w = Inr w' \<Longrightarrow> reachable chk w'"
| process_one:
    "reachable chk w \<Longrightarrow> frames_nonnull (frames jt) \<Longrightarrow>
     process_one chk eid jt w = Inr w' \<Longrightarrow> reachable chk w'"
| finish_iteration:
    "reachable chk w \<Longrightarrow> frames_nonnull (frames jt) \<Longrightarrow>
     finish_iteration chk eid jt ctx w = Inr w' \<Longrightarrow> reachable chk w'"
| is_frame_safe:
    "reachable chk w \<Longrightarrow> reachable chk (snd (is_frame_safe sender eid fr w))"
| last_processed:
    "reachable chk w \<Longrightarrow> reachable chk (snd (last_processed eid w))"

section \<open>Lemmas\<close>

subsection \<open>One step of the cursor\<close>

lemma step_frames_rest: "step_frames fs @ step_rest fs = fs"
  by (induction fs) auto

lemma step_frames_Nil_iff [simp]: "step_frames fs = [] \<longleftrightarrow> fs = []"
  by (cases fs) auto

lemma step_rest_barrier: "step_rest fs \<noteq> [] \<Longrightarrow> has_barrier (last (step_frames fs))"
  by (induction fs) (auto split: if_splits)

lemma length_step_rest: "length (step_rest fs) \<le> length fs"
  by (induction fs) auto

lemma set_step_rest: "set (step_rest fs) \<subseteq> set fs"
  by (induction fs) auto

lemma set_step_frames: "set (step_frames fs) \<subseteq> set fs"
  by (induction fs) auto

lemma process_one_loop_eq:
  "process_one_loop ctx a it evs =
     ((if frame_stream it = [] then a else sp (last (step_frames (frame_stream it)))),
      it\<lparr>frame_stream := step_rest (frame_stream it)\<rparr>,
      evs @ map (\<lambda>f. Process f ctx) (step_frames (frame_stream it)))"
proof (induction ctx a it evs rule: process_one_loop.induct)
  case (1 ctx a it evs)
  show ?case
  proof (cases "frame_stream it")
    case Nil
    then show ?thesis
      by (subst process_one_loop.simps) (simp add: has_next_def)
  next
    case (Cons f fs)
    show ?thesis
    proof (cases "has_barrier f")
      case True
      with Cons show ?thesis
        by (subst process_one_loop.simps)
           (simp add: has_next_def current_def next_frame_def)
    next
      case False
      have hn: "has_next it" using Cons by (simp add: has_next_def)
      have cur: "current it = f" using Cons by (simp add: current_def)
      have nb: "\<not> has_barrier (current it)" using False cur by simp
      note IH = "1.IH" [OF hn refl refl refl refl refl, simplified cur, OF False]
      show ?thesis
        apply (subst process_one_loop.simps)
        using Cons False IH
        apply (simp add: has_next_def current_def next_frame_def Let_def)
        done
    qed
  qed
qed

lemma iter_process_one_eq:
  "iter_process_one ctx it =
     (set_watermark (sp (last (step_frames (frame_stream it))))
        (it\<lparr>frame_stream := step_rest (frame_stream it)\<rparr>),
      map (\<lambda>f. Process f ctx) (step_frames (frame_stream it)))"
  by (simp add: iter_process_one_def process_one_loop_eq set_watermark_def has_next_def)

subsection \<open>update_watermark and set_watermark\<close>

lemmas lock_simps = lock_def unlock_def then_unlock_def MutexUnlocker_def
  release_store_watermark_def release_store_state_def

lemma update_watermark_eq:
  assumes "chk \<longrightarrow> lock_owned w \<and> (cursor_has_unvisited w \<longrightarrow> callee (the (iterator w)) \<noteq> 0)"
  shows "update_watermark chk eid w =
           Inr (release_store_state (create eid (\<not> cursor_has_unvisited w))
                 (release_store_watermark
                    (if cursor_has_unvisited w then callee (the (iterator w)) else 0) w))"
  using assms
  by (auto simp: update_watermark_def cursor_has_unvisited_def split: option.splits)

lemma update_watermark_Inr:
  assumes "update_watermark chk eid w = Inr w'"
  shows "w' = release_store_state (create eid (\<not> cursor_has_unvisited w))
                 (release_store_watermark
                    (if cursor_has_unvisited w then callee (the (iterator w)) else 0) w)"
  using assms
  by (auto simp: update_watermark_def cursor_has_unvisited_def split: option.splits if_splits)

lemma update_watermark_sanity:
  assumes "update_watermark True eid w = Inr w'" and "cursor_has_unvisited w"
  shows "callee (the (iterator w)) \<noteq> 0"
  using assms
  by (auto simp: update_watermark_def cursor_has_unvisited_def split: option.splits if_splits)

lemma set_watermark_frame_stream [simp]:
  "frame_stream (set_watermark a it) = frame_stream it"
  by (simp add: set_watermark_def)

lemma has_next_set_watermark [simp]: "has_next (set_watermark a it) = has_next it"
  by (simp add: has_next_def)

lemma set_watermark_callee_nonnull:
  "has_next it \<Longrightarrow> a \<noteq> 0 \<Longrightarrow> callee (set_watermark a it) \<noteq> 0"
  by (simp add: set_watermark_def)

lemma set_watermark_caller:
  "caller (set_watermark a it) = caller it \<or> caller (set_watermark a it) = a"
  by (simp add: set_watermark_def)

lemma walk_ordered_tl:
  assumes "walk_ordered it" and "frame_stream it = f # fs"
  shows "walk_ordered (it\<lparr>frame_stream := fs\<rparr>)"
  using assms by (simp add: walk_ordered_def)

lemma walk_ordered_set_watermark:
  assumes "walk_ordered it" and "frame_stream it = f # fs"
  shows "walk_ordered (set_watermark (sp f) (it\<lparr>frame_stream := fs\<rparr>))"
  using assms set_watermark_caller [of "sp f" "it\<lparr>frame_stream := fs\<rparr>"]
  by (auto simp: walk_ordered_def)

subsection \<open>The drain loop\<close>


lemma process_all_loop_Nil:
  "iterator w = Some it \<Longrightarrow> frame_stream it = [] \<Longrightarrow> process_all_loop chk eid ctx i w = Inr w"
  by (subst process_all_loop.simps) (simp add: has_next_def)

lemma process_all_loop_Cons:
  assumes "iterator w = Some it" and "frame_stream it = f # fs"
  shows "process_all_loop chk eid ctx i w =
     (if chk \<and> sp f < caller it then Inl Assert_invariant
      else if has_barrier f then
        (if i + 1 = 5 then
           (case update_watermark chk eid
                   (w\<lparr>trace := trace w @ [Process f ctx],
                      iterator := Some (set_watermark (sp f) (it\<lparr>frame_stream := fs\<rparr>))\<rparr>) of
              Inl e \<Rightarrow> Inl e
            | Inr w3 \<Rightarrow> process_all_loop chk eid ctx 0 (MutexUnlocker w3))
         else process_all_loop chk eid ctx (i + 1)
                (w\<lparr>trace := trace w @ [Process f ctx],
                   iterator := Some (set_watermark (sp f) (it\<lparr>frame_stream := fs\<rparr>))\<rparr>))
      else process_all_loop chk eid ctx i
             (w\<lparr>trace := trace w @ [Process f ctx], iterator := Some (it\<lparr>frame_stream := fs\<rparr>)\<rparr>))"
  using assms
  by (subst process_all_loop.simps)
     (simp add: has_next_def current_def next_frame_def Let_def not_le)

lemma process_all_loop_drains:
  assumes "process_all_loop chk eid ctx i w = Inr w'" and "iterator w = Some it"
  shows "\<exists>it'. iterator w' = Some it' \<and> frame_stream it' = []"
  using assms
proof (induction "frame_stream it" arbitrary: w it i)
  case Nil
  then show ?case by (simp add: process_all_loop_Nil)
next
  case (Cons f fs)
  note fs = Cons.hyps(2) [symmetric]
  note run = Cons.prems(1) [unfolded process_all_loop_Cons [OF Cons.prems(2) fs]]
  show ?case
  proof (cases "has_barrier f")
    case False
    with run have "process_all_loop chk eid ctx i
             (w\<lparr>trace := trace w @ [Process f ctx], iterator := Some (it\<lparr>frame_stream := fs\<rparr>)\<rparr>) = Inr w'"
      by (simp split: if_splits)
    from Cons.hyps(1) [where it = "it\<lparr>frame_stream := fs\<rparr>", OF _ this] show ?thesis by simp
  next
    case True
    let ?it2 = "set_watermark (sp f) (it\<lparr>frame_stream := fs\<rparr>)"
    let ?w2 = "w\<lparr>trace := trace w @ [Process f ctx],
                   iterator := Some (set_watermark (sp f) (it\<lparr>frame_stream := fs\<rparr>))\<rparr>"
    show ?thesis
    proof (cases "i + 1 = 5")
      case False
      with run True have "process_all_loop chk eid ctx (i + 1) ?w2 = Inr w'"
        by (simp split: if_splits)
      from Cons.hyps(1) [where it = ?it2, OF _ this] show ?thesis by simp
    next
      case i5: True
      with run True obtain w3 where
        u: "update_watermark chk eid ?w2 = Inr w3" and
        r: "process_all_loop chk eid ctx 0 (MutexUnlocker w3) = Inr w'"
        by (auto split: if_splits sum.splits)
      have "iterator (MutexUnlocker w3) = Some (set_watermark (sp f) (it\<lparr>frame_stream := fs\<rparr>))"
        using update_watermark_iterator [OF u] by (simp add: lock_simps)
      from Cons.hyps(1) [where it = ?it2, OF _ r this] show ?thesis by simp
    qed
  qed
qed


lemma counter_cases: "n mod 5 = 0 \<or> n mod 5 = 1 \<or> n mod 5 = 2 \<or> n mod 5 = 3 \<or> n mod 5 = (4::nat)"
  by presburger

lemma counter_yield: "((of_nat (n mod 5) :: uint32_t) + 1 = 5) = (Suc n mod 5 = 0)"
  using counter_cases [of n] by (auto simp: mod_Suc)

lemma counter_next: "Suc n mod 5 \<noteq> 0 \<Longrightarrow> (of_nat (n mod 5) :: uint32_t) + 1 = of_nat (Suc n mod 5)"
  using counter_cases [of n] by (auto simp: mod_Suc)

lemma counter_reset: "Suc n mod 5 = 0 \<Longrightarrow> (0 :: uint32_t) = of_nat (Suc n mod 5)"
  by simp

lemma process_all_loop_run:
  assumes "iterator w = Some it"
      and "chk \<longrightarrow> lock_owned w \<and> frames_nonnull (frame_stream it) \<and> walk_ordered it"
  shows "\<exists>w'. process_all_loop chk eid ctx (of_nat (n mod 5)) w = Inr w' \<and>
           trace w' = trace w @ drain_events eid ctx n it (frame_stream it) \<and>
           iterator w' = Some (drain_cursor it (frame_stream it)) \<and>
           (lock_owned w \<longrightarrow> lock_owned w')"
  using assms
proof (induction "frame_stream it" arbitrary: w it n)
  case Nil
  then show ?case by (simp add: process_all_loop_Nil [OF Nil.prems(1)] flip: Nil.hyps)
next
  case (Cons f fs)
  note fs = Cons.hyps(2) [symmetric]
  let ?it1 = "it\<lparr>frame_stream := fs\<rparr>"
  let ?it2 = "set_watermark (sp f) ?it1"
  let ?w1 = "w\<lparr>trace := trace w @ [Process f ctx], iterator := Some ?it1\<rparr>"
  let ?w2 = "w\<lparr>trace := trace w @ [Process f ctx], iterator := Some ?it2\<rparr>"
  have ok: "\<not> (chk \<and> sp f < caller it)"
    using Cons.prems(2) fs by (auto simp: walk_ordered_def)
  have nz: "chk \<longrightarrow> sp f \<noteq> 0 \<and> frames_nonnull fs"
    using Cons.prems(2) fs by (auto simp: frames_nonnull_def)
  have p1: "chk \<longrightarrow> lock_owned ?w1 \<and> frames_nonnull (frame_stream ?it1) \<and> walk_ordered ?it1"
    using Cons.prems(2) nz walk_ordered_tl [OF _ fs] by simp
  have p2: "chk \<longrightarrow> lock_owned ?w2 \<and> frames_nonnull (frame_stream ?it2) \<and> walk_ordered ?it2"
    using Cons.prems(2) nz walk_ordered_set_watermark [OF _ fs] by simp
  show ?case
  proof (cases "has_barrier f")
    case False
    from Cons.hyps(1) [where it = ?it1 and w = ?w1 and n = n, OF _ _ p1]
    show ?thesis
      unfolding process_all_loop_Cons [OF Cons.prems(1) fs]
      using ok False by (simp add: fs)
  next
    case True
    show ?thesis
    proof (cases "Suc n mod 5 = 0")
      case False
      have c5: "(of_nat (n mod 5) :: uint32_t) + 1 \<noteq> 5"
        using False by (simp add: counter_yield)
      have cn: "(of_nat (n mod 5) :: uint32_t) + 1 = of_nat (Suc n mod 5)"
        using False by (rule counter_next)
      from Cons.hyps(1) [where it = ?it2 and w = ?w2 and n = "Suc n", OF _ _ p2]
      show ?thesis
        unfolding process_all_loop_Cons [OF Cons.prems(1) fs]
        using ok True False c5 cn by (simp add: fs)
    next
      case y: True
      let ?w3 = "release_store_state (create eid (\<not> cursor_has_unvisited ?w2))
                   (release_store_watermark
                      (if cursor_has_unvisited ?w2 then callee (the (iterator ?w2)) else 0) ?w2)"
      have "chk \<longrightarrow> lock_owned ?w2 \<and>
              (cursor_has_unvisited ?w2 \<longrightarrow> callee (the (iterator ?w2)) \<noteq> 0)"
        using p2 nz by (auto simp: cursor_has_unvisited_def set_watermark_callee_nonnull)
      from update_watermark_eq [OF this]
      have u: "update_watermark chk eid ?w2 = Inr ?w3" .
      have p3: "chk \<longrightarrow> lock_owned (MutexUnlocker ?w3) \<and> frames_nonnull (frame_stream ?it2) \<and>
                  walk_ordered ?it2"
        using p2 by (simp add: lock_simps)
      have i3: "iterator (MutexUnlocker ?w3) = Some ?it2"
        by (simp add: lock_simps)
      have t3: "trace (MutexUnlocker ?w3) =
                  trace w @ Process f ctx # publish_events eid ?it2 @ [Lock_release, Lock_acquire]"
        by (simp add: lock_simps publish_events_def cursor_has_unvisited_def)
      have l3: "lock_owned (MutexUnlocker ?w3)"
        by (simp add: lock_simps)
      from Cons.hyps(1) [where it = ?it2 and w = "MutexUnlocker ?w3" and n = "Suc n", OF _ i3 p3]
      obtain w' where
        r: "process_all_loop chk eid ctx (of_nat (Suc n mod 5)) (MutexUnlocker ?w3) = Inr w'" and
        t: "trace w' = trace (MutexUnlocker ?w3) @ drain_events eid ctx (Suc n) ?it2 fs" and
        c: "iterator w' = Some (drain_cursor ?it2 fs)" and
        l: "lock_owned w'"
        using l3 by auto
      have "process_all_loop chk eid ctx (of_nat (n mod 5)) w = Inr w'"
        unfolding process_all_loop_Cons [OF Cons.prems(1) fs]
        using ok True y u r by (simp add: counter_yield)
      moreover have "trace w' = trace w @ drain_events eid ctx n it (frame_stream it)"
        using t t3 True y by (simp add: fs)
      moreover have "iterator w' = Some (drain_cursor it (frame_stream it))"
        using c True by (simp add: fs)
      ultimately show ?thesis using l by blast
    qed
  qed
qed

subsection \<open>Steps of the cursor and the walker's precondition\<close>

lemma frames_nonnull_step_rest: "frames_nonnull fs \<Longrightarrow> frames_nonnull (step_rest fs)"
  using set_step_rest [of fs] by (auto simp: frames_nonnull_def)

lemma last_step_frames_in: "fs \<noteq> [] \<Longrightarrow> last (step_frames fs) \<in> set fs"
  using set_step_frames [of fs] last_in_set [of "step_frames fs"] by auto

lemma step_rest_nonempty: "step_rest fs \<noteq> [] \<Longrightarrow> fs \<noteq> []"
  by auto

lemma advance_eq:
  "advance ctx it = set_watermark (sp (last (step_frames (frame_stream it))))
                      (it\<lparr>frame_stream := step_rest (frame_stream it)\<rparr>)"
  by (simp add: advance_def iter_process_one_eq)

lemma frame_stream_advance [simp]: "frame_stream (advance ctx it) = step_rest (frame_stream it)"
  by (simp add: advance_eq)

lemma advance_callee_nonnull:
  assumes "frames_nonnull (frame_stream it)" and "has_next (advance ctx it)"
  shows "callee (advance ctx it) \<noteq> 0"
proof -
  from assms(2) have r: "step_rest (frame_stream it) \<noteq> []" by (simp add: has_next_def)
  then have "frame_stream it \<noteq> []" by auto
  then have "sp (last (step_frames (frame_stream it))) \<noteq> 0"
    using assms(1) last_step_frames_in by (auto simp: frames_nonnull_def)
  then show ?thesis
    using r by (simp add: advance_eq set_watermark_callee_nonnull has_next_def)
qed

lemma walk_ordered_suffix:
  assumes "walk_ordered it" and "frame_stream it = xs @ ys"
  shows "walk_ordered (it\<lparr>frame_stream := ys\<rparr>)"
  using assms by (auto simp: walk_ordered_def sorted_append)

lemma walk_ordered_advance:
  assumes "walk_ordered it"
  shows "walk_ordered (advance ctx it)"
proof -
  let ?fs = "frame_stream it"
  let ?it1 = "it\<lparr>frame_stream := step_rest ?fs\<rparr>"
  have split: "?fs = step_frames ?fs @ step_rest ?fs" by (simp add: step_frames_rest)
  have o1: "walk_ordered ?it1" by (rule walk_ordered_suffix [OF assms split])
  have le: "sp (last (step_frames ?fs)) \<le> sp g" if "g \<in> set (step_rest ?fs)" for g
  proof -
    from that have "?fs \<noteq> []" by auto
    then have "last (step_frames ?fs) \<in> set (step_frames ?fs)" by simp
    moreover have "sorted (map sp (step_frames ?fs) @ map sp (step_rest ?fs))"
      using assms split by (metis map_append walk_ordered_def)
    ultimately show ?thesis using that by (auto simp: sorted_append)
  qed
  show ?thesis
    using o1 le set_watermark_caller [of "sp (last (step_frames ?fs))" ?it1]
    by (auto simp: walk_ordered_def advance_eq)
qed

lemma iterator_process_one_Some:
  "iterator w = Some it \<Longrightarrow>
   iterator_process_one ctx w =
     w\<lparr>iterator := Some (advance ctx it),
       trace := trace w @ map (\<lambda>f. Process f ctx) (step_frames (frame_stream it))\<rparr>"
  by (simp add: iterator_process_one_def advance_def iter_process_one_eq)

lemma steps_frames_rest: "steps_frames n fs @ steps_rest n fs = fs"
proof (induction n arbitrary: fs)
  case 0
  show ?case by simp
next
  case (Suc n)
  have "steps_frames (Suc n) fs @ steps_rest (Suc n) fs =
          step_frames fs @ (steps_frames n (step_rest fs) @ steps_rest n (step_rest fs))"
    by simp
  also have "\<dots> = fs" by (simp only: Suc.IH step_frames_rest)
  finally show ?case .
qed

lemma frame_stream_process_one_times:
  "frame_stream (process_one_times n ctx it) = steps_rest n (frame_stream it)"
  by (induction n arbitrary: it) simp_all

lemma walk_ordered_process_one_times:
  "walk_ordered it \<Longrightarrow> walk_ordered (process_one_times n ctx it)"
  by (induction n arbitrary: it) (simp_all add: walk_ordered_advance)

lemma frames_nonnull_steps_rest: "frames_nonnull fs \<Longrightarrow> frames_nonnull (steps_rest n fs)"
  by (induction n arbitrary: fs) (simp_all add: frames_nonnull_step_rest)

lemma process_one_times_callee_nonnull:
  assumes "frames_nonnull (frame_stream it)" and "has_next (process_one_times (Suc n) ctx it)"
  shows "callee (process_one_times (Suc n) ctx it) \<noteq> 0"
  using assms
proof (induction n arbitrary: it)
  case 0
  then show ?case by (simp add: advance_callee_nonnull)
next
  case (Suc n)
  have "frames_nonnull (frame_stream (advance ctx it))"
    using Suc.prems(1) by (simp add: frames_nonnull_step_rest)
  from Suc.IH [OF this] Suc.prems(2) show ?case by simp
qed

lemma walk_ordered_new:
  "sorted (map sp (frames jt)) \<Longrightarrow> walk_ordered (StackWatermarkIterator_new jt)"
  by (simp add: walk_ordered_def StackWatermarkIterator_new_def)

lemma start_iteration_impl_frames:
  assumes "frames jt \<noteq> []"
  shows "start_iteration_impl chk eid jt ctx w =
           update_watermark chk eid
             (w\<lparr>iterator := Some (process_one_times 3 ctx (StackWatermarkIterator_new jt)),
                trace := trace w @ map (\<lambda>f. Process f ctx) (steps_frames 3 (frames jt))\<rparr>)"
  using assms
  by (simp add: start_iteration_impl_def has_last_Java_frame_def iterator_process_one_Some
        numeral_3_eq_3 StackWatermarkIterator_new_def)

lemma start_iteration_impl_no_frames:
  assumes "frames jt = []"
  shows "start_iteration_impl chk eid jt ctx w = update_watermark chk eid (w\<lparr>iterator := None\<rparr>)"
  using assms by (simp add: start_iteration_impl_def has_last_Java_frame_def)

subsection \<open>Publishing\<close>

lemma update_watermark_publish:
  assumes "iterator w = Some it" and "chk \<longrightarrow> lock_owned w \<and> (has_next it \<longrightarrow> callee it \<noteq> 0)"
  shows "update_watermark chk eid w =
           Inr (w\<lparr>watermark := (if has_next it then callee it else 0),
                  state := create eid (\<not> has_next it),
                  trace := trace w @ publish_events eid it\<rparr>)"
  using assms
  by (auto simp: update_watermark_def publish_events_def lock_simps)

lemma update_watermark_no_cursor:
  assumes "iterator w = None" and "chk \<longrightarrow> lock_owned w"
  shows "update_watermark chk eid w =
           Inr (w\<lparr>watermark := 0, state := create eid True,
                  trace := trace w @ [Release_store_watermark 0, Release_store_state (create eid True)]\<rparr>)"
  using assms
  by (auto simp: update_watermark_def lock_simps)

subsection \<open>Evaluation on concrete frames\<close>

lemma frame_at_sel [simp]:
  "sp (frame_at a b) = a" "has_barrier (frame_at a b) = b"
  "is_safepoint_blob_frame (frame_at a b) = False"
  by (simp_all add: frame_at_def)

lemmas run_simps = process_one_def should_start_iteration_def lock_simps start_iteration_impl_def
  has_last_Java_frame_def iterator_process_one_def iter_process_one_eq set_watermark_def
  has_next_def update_watermark_def StackWatermark_new_def StackWatermarkIterator_new_def

lemma steps_frames_3:
  "steps_frames 3 fs = step_frames fs @ step_frames (step_rest fs) @ step_frames (step_rest (step_rest fs))"
  by (simp add: numeral_3_eq_3)

subsection \<open>Traces\<close>

lemma processed_append: "processed (xs @ ys) = processed xs @ processed ys"
  by (induction xs rule: processed.induct) simp_all

lemma processed_map_Process: "processed (map (\<lambda>f. Process f ctx) fs) = map (\<lambda>f. (f, ctx)) fs"
  by (induction fs) simp_all

lemma processed_publish_events [simp]: "processed (publish_events eid it) = []"
  by (simp add: publish_events_def)

lemma processed_drain_events:
  "processed (drain_events eid ctx n it fs) = map (\<lambda>f. (f, ctx)) fs"
  by (induction fs arbitrary: n it) (simp_all add: processed_append)

lemma frame_stream_drain_cursor:
  "frame_stream (drain_cursor it fs) = (if fs = [] then frame_stream it else [])"
  by (induction fs arbitrary: it) auto

lemma lock_hold_bounded_publish [simp]:
  "lock_hold_bounded k n (publish_events eid it @ es) = lock_hold_bounded k n es"
  by (simp add: publish_events_def)

lemma lock_hold_bounded_drain_events:
  "lock_hold_bounded 5 (n mod 5) (drain_events eid ctx n it fs)"
proof (induction fs arbitrary: n it)
  case Nil
  show ?case by simp
next
  case (Cons f fs)
  have lt: "Suc (n mod 5) \<le> 5" by simp
  show ?case
  proof (cases "Suc n mod 5 = 0")
    case True
    with Cons [of "Suc n"] Cons [of n] lt show ?thesis by simp
  next
    case False
    then have "Suc (n mod 5) = Suc n mod 5" by (simp add: mod_Suc split: if_splits)
    with Cons [of "Suc n"] Cons [of n] lt False show ?thesis by simp
  qed
qed

lemma iter_process_all_run:
  assumes "iterator w = Some it"
      and "chk \<longrightarrow> lock_owned w \<and> frames_nonnull (frame_stream it) \<and> walk_ordered it"
  shows "\<exists>w'. iter_process_all chk eid ctx w = Inr w' \<and>
           trace w' = trace w @ drain_events eid ctx 0 it (frame_stream it) \<and>
           iterator w' = Some (drain_cursor it (frame_stream it)) \<and>
           (lock_owned w \<longrightarrow> lock_owned w')"
  using process_all_loop_run [OF assms, of eid ctx 0] by (simp add: iter_process_all_def)

lemma drain_then_publish:
  assumes "iterator w = Some it"
      and "chk \<longrightarrow> lock_owned w \<and> frames_nonnull (frame_stream it) \<and> walk_ordered it"
  shows "\<exists>w3 w'. iter_process_all chk eid ctx w = Inr w3 \<and>
           then_unlock (update_watermark chk eid w3) = Inr w' \<and>
           state w' = create eid True \<and> watermark w' = 0 \<and> \<not> cursor_has_unvisited w' \<and>
           processed (trace w') = processed (trace w) @ map (\<lambda>f. (f, ctx)) (frame_stream it)"
proof -
  let ?it' = "drain_cursor it (frame_stream it)"
  from iter_process_all_run [OF assms, of eid ctx] obtain w3 where
    r: "iter_process_all chk eid ctx w = Inr w3" and
    t: "trace w3 = trace w @ drain_events eid ctx 0 it (frame_stream it)" and
    i: "iterator w3 = Some ?it'" and
    l: "lock_owned w \<longrightarrow> lock_owned w3"
    by blast
  have e: "\<not> has_next ?it'"
    by (simp add: has_next_def frame_stream_drain_cursor)
  have "chk \<longrightarrow> lock_owned w3 \<and> (has_next ?it' \<longrightarrow> callee ?it' \<noteq> 0)"
    using assms(2) l e by simp
  from update_watermark_publish [OF i this, of eid]
  have "then_unlock (update_watermark chk eid w3) =
          Inr (unlock (w3\<lparr>watermark := 0, state := create eid True,
                          trace := trace w3 @ publish_events eid ?it'\<rparr>))"
    using e by (simp add: then_unlock_def)
  with r t i e show ?thesis
    by (simp add: unlock_def cursor_has_unvisited_def processed_append processed_drain_events)
qed

subsection \<open>The ring\<close>

lemma ring_folds_snoc:
  "ring_folds k b (as @ [a]) = ring_fold (k + length as) (ring_folds k b as) a"
  by (induction as arbitrary: k b) simp_all

lemma ring_inv_frame_stream [simp]: "ring_inv as (it\<lparr>frame_stream := fs\<rparr>) = ring_inv as it"
  by (simp add: ring_inv_def boundary_def)

lemma ring_inv_set_watermark:
  assumes "ring_inv as it" and "has_next it" and "a \<noteq> 0"
  shows "ring_inv (as @ [a]) (set_watermark a it)"
proof -
  consider "as = []" | "length as = 1" | "2 \<le> length as" by (cases as) (auto simp: Suc_le_eq)
  then show ?thesis
  proof cases
    case 1
    with assms show ?thesis
      by (simp add: ring_inv_def boundary_def set_watermark_def ring_fold_def)
  next
    case 2
    then obtain x where x: "as = [x]" by (cases as) auto
    with assms have "callee it \<noteq> 0" "caller it = 0"
      by (auto simp: ring_inv_def)
    with assms x show ?thesis
      by (auto simp: ring_inv_def boundary_def set_watermark_def ring_fold_def)
  next
    case 3
    with assms have nz: "callee it \<noteq> 0" "caller it \<noteq> 0"
      by (auto simp: ring_inv_def)
    have b: "ring_folds 0 (0, 0) as = (callee it, caller it)"
      using assms(1) by (simp add: ring_inv_def boundary_def)
    from nz assms(2,3) 3 show ?thesis
      by (auto simp: ring_inv_def boundary_def set_watermark_def ring_folds_snoc ring_fold_def b)
  qed
qed

lemma ring_inv_new: "ring_inv [] (StackWatermarkIterator_new jt)"
  by (simp add: ring_inv_def boundary_def StackWatermarkIterator_new_def)

lemma folded_addresses_Cons:
  "folded_addresses (f # fs) =
     (if has_barrier f \<and> fs \<noteq> [] then sp f # folded_addresses fs else folded_addresses fs)"
  by (simp add: folded_addresses_def)

lemma folded_addresses_step:
  "folded_addresses fs =
     (if step_rest fs = [] then []
      else sp (last (step_frames fs)) # folded_addresses (step_rest fs))"
proof (induction fs)
  case Nil
  show ?case by (simp add: folded_addresses_def)
next
  case (Cons f fs)
  show ?case
  proof (cases "has_barrier f")
    case True
    then show ?thesis by (simp add: folded_addresses_Cons) (simp add: folded_addresses_def)
  next
    case False
    have "fs = [] \<Longrightarrow> step_rest fs = []" by simp
    with False Cons show ?thesis
      by (auto simp: folded_addresses_Cons)
  qed
qed

lemma ring_inv_advance:
  assumes "ring_inv as it" and "frames_nonnull (frame_stream it)"
  shows "ring_inv (as @ step_fold (frame_stream it)) (advance ctx it)"
proof (cases "step_rest (frame_stream it) = []")
  case True
  then have "advance ctx it = it\<lparr>frame_stream := []\<rparr>"
    by (simp add: advance_eq set_watermark_def has_next_def)
  with True assms(1) show ?thesis
    by (simp add: step_fold_def)
next
  case False
  let ?a = "sp (last (step_frames (frame_stream it)))"
  let ?it1 = "it\<lparr>frame_stream := step_rest (frame_stream it)\<rparr>"
  from False have "frame_stream it \<noteq> []" by auto
  then have nz: "?a \<noteq> 0"
    using assms(2) last_step_frames_in by (auto simp: frames_nonnull_def)
  have "ring_inv (as @ [?a]) (set_watermark ?a ?it1)"
    by (rule ring_inv_set_watermark) (use assms(1) False nz in \<open>simp_all add: has_next_def\<close>)
  with False show ?thesis
    by (simp add: advance_eq step_fold_def)
qed

lemma folded_addresses_step_fold:
  "folded_addresses fs = step_fold fs @ folded_addresses (step_rest fs)"
  by (subst folded_addresses_step) (simp add: step_fold_def folded_addresses_def)

lemma take_Suc_folded_addresses:
  "take (Suc n) (folded_addresses fs) = step_fold fs @ take n (folded_addresses (step_rest fs))"
  by (subst folded_addresses_step) (simp add: step_fold_def folded_addresses_def)

lemma ring_inv_process_one_times:
  assumes "ring_inv as it" and "frames_nonnull (frame_stream it)"
  shows "ring_inv (as @ take n (folded_addresses (frame_stream it))) (process_one_times n ctx it)"
  using assms
proof (induction n arbitrary: as it)
  case 0
  then show ?case by simp
next
  case (Suc n)
  have "ring_inv ((as @ step_fold (frame_stream it)) @
                  take n (folded_addresses (frame_stream (advance ctx it))))
          (process_one_times n ctx (advance ctx it))"
    by (rule Suc.IH [OF ring_inv_advance [OF Suc.prems]])
       (use Suc.prems(2) in \<open>simp add: frames_nonnull_step_rest\<close>)
  then show ?case
    by (simp add: take_Suc_folded_addresses)
qed

lemma ring_inv_drain_cursor:
  assumes "ring_inv as it" and "frames_nonnull fs"
  shows "ring_inv (as @ folded_addresses fs) (drain_cursor it fs)"
  using assms
proof (induction fs arbitrary: as it)
  case Nil
  then show ?case by (simp add: folded_addresses_def)
next
  case (Cons f fs)
  from Cons.prems(2) have nz: "sp f \<noteq> 0" and nn: "frames_nonnull fs"
    by (simp_all add: frames_nonnull_def)
  show ?case
  proof (cases "has_barrier f \<and> fs \<noteq> []")
    case True
    have "ring_inv (as @ [sp f]) (set_watermark (sp f) (it\<lparr>frame_stream := fs\<rparr>))"
      by (rule ring_inv_set_watermark) (use Cons.prems(1) True nz in \<open>simp_all add: has_next_def\<close>)
    from Cons.IH [OF this nn] True show ?thesis
      by (simp add: folded_addresses_Cons)
  next
    case False
    have "set_watermark (sp f) (it\<lparr>frame_stream := []\<rparr>) = it\<lparr>frame_stream := []\<rparr>"
      by (simp add: set_watermark_def has_next_def)
    with False Cons.IH [of as "it\<lparr>frame_stream := fs\<rparr>", OF _ nn] Cons.prems(1)
    show ?thesis
      by (auto simp: folded_addresses_Cons folded_addresses_def)
  qed
qed

lemma folded_addresses_steps_rest:
  "take n (folded_addresses fs) @ folded_addresses (steps_rest n fs) = folded_addresses fs"
proof (induction n arbitrary: fs)
  case 0
  show ?case by simp
next
  case (Suc n)
  have "take (Suc n) (folded_addresses fs) @ folded_addresses (steps_rest (Suc n) fs) =
          step_fold fs @
          (take n (folded_addresses (step_rest fs)) @ folded_addresses (steps_rest n (step_rest fs)))"
    by (simp add: take_Suc_folded_addresses)
  also have "\<dots> = step_fold fs @ folded_addresses (step_rest fs)"
    by (simp only: Suc.IH)
  also have "\<dots> = folded_addresses fs"
    by (rule folded_addresses_step_fold [symmetric])
  finally show ?case .
qed

subsection \<open>The published pair under the operations\<close>

lemma published_consistent_lock [simp]:
  "published_consistent (lock w) = published_consistent w"
  "published_consistent (unlock w) = published_consistent w"
  by (simp_all add: published_consistent_def lock_def unlock_def)

lemma cursor_nonnull_lock [simp]:
  "cursor_nonnull (lock w) = cursor_nonnull w"
  "cursor_nonnull (unlock w) = cursor_nonnull w"
  by (simp_all add: cursor_nonnull_def lock_def unlock_def)

lemma update_watermark_consistent:
  assumes "update_watermark chk eid w = Inr w'"
      and "cursor_has_unvisited w \<longrightarrow> callee (the (iterator w)) \<noteq> 0"
  shows "published_consistent w' \<and> cursor_nonnull w' = cursor_nonnull w"
  using assms(2) unfolding update_watermark_Inr [OF assms(1)]
  by (simp add: published_consistent_def cursor_nonnull_def lock_simps)

lemma then_unlock_Inr:
  "then_unlock r = Inr w' \<Longrightarrow> \<exists>v. r = Inr v \<and> w' = unlock v"
  by (cases r) (auto simp: then_unlock_def)

lemma start_iteration_impl_consistent:
  assumes "start_iteration_impl chk eid jt ctx w = Inr w'" and "frames_nonnull (frames jt)"
  shows "published_consistent w' \<and> cursor_nonnull w'"
proof (cases "frames jt = []")
  case True
  with assms(1) have u: "update_watermark chk eid (w\<lparr>iterator := None\<rparr>) = Inr w'"
    by (simp add: start_iteration_impl_no_frames)
  from update_watermark_consistent [OF u] show ?thesis
    by (simp add: cursor_has_unvisited_def cursor_nonnull_def)
next
  case False
  let ?it3 = "process_one_times 3 ctx (StackWatermarkIterator_new jt)"
  let ?v = "w\<lparr>iterator := Some ?it3,
                trace := trace w @ map (\<lambda>f. Process f ctx) (steps_frames 3 (frames jt))\<rparr>"
  from False assms(1) have u: "update_watermark chk eid ?v = Inr w'"
    by (simp add: start_iteration_impl_frames)
  have nz: "has_next ?it3 \<longrightarrow> callee ?it3 \<noteq> 0"
    using assms(2) process_one_times_callee_nonnull [of "StackWatermarkIterator_new jt" 2 ctx]
    by (simp add: StackWatermarkIterator_new_def numeral_3_eq_3)
  have "frames_nonnull (frame_stream ?it3)"
    using assms(2)
    by (simp add: frame_stream_process_one_times frames_nonnull_steps_rest
          StackWatermarkIterator_new_def)
  with update_watermark_consistent [OF u] nz show ?thesis
    by (simp add: cursor_has_unvisited_def cursor_nonnull_def)
qed

lemma process_one_consistent:
  assumes "process_one chk eid jt w = Inr w'" and "frames_nonnull (frames jt)"
      and "published_consistent w" and "cursor_nonnull w"
  shows "published_consistent w' \<and> cursor_nonnull w'"
proof -
  consider (stale) "epoch (state w) \<noteq> eid"
    | (step) it where "epoch (state w) = eid" "iterator w = Some it"
    | (idle) "epoch (state w) = eid" "iterator w = None"
    by (cases "iterator w") auto
  then show ?thesis
  proof cases
    case stale
    with assms(1) have "then_unlock (start_iteration_impl chk eid jt 0 (lock w)) = Inr w'"
      by (simp add: process_one_def should_start_iteration_def lock_def)
    then obtain v where "start_iteration_impl chk eid jt 0 (lock w) = Inr v" "w' = unlock v"
      by (auto dest: then_unlock_Inr)
    with start_iteration_impl_consistent [OF _ assms(2)] show ?thesis by simp
  next
    case step
    let ?v = "iterator_process_one 0 (lock w)"
    from step assms(1) have "then_unlock (update_watermark chk eid ?v) = Inr w'"
      by (simp add: process_one_def should_start_iteration_def lock_def)
    then obtain v' where u: "update_watermark chk eid ?v = Inr v'" and w': "w' = unlock v'"
      by (auto dest: then_unlock_Inr)
    have iv: "iterator ?v = Some (advance 0 it)"
      using step by (simp add: iterator_process_one_Some lock_def)
    have nn: "frames_nonnull (frame_stream it)"
      using assms(4) step by (simp add: cursor_nonnull_def)
    then have "cursor_has_unvisited ?v \<longrightarrow> callee (the (iterator ?v)) \<noteq> 0"
      by (simp add: iv cursor_has_unvisited_def advance_callee_nonnull)
    moreover have "cursor_nonnull ?v"
      using nn by (simp add: cursor_nonnull_def iv frames_nonnull_step_rest)
    ultimately show ?thesis
      using update_watermark_consistent [OF u] w' by simp
  next
    case idle
    with assms show ?thesis
      by (auto simp: process_one_def should_start_iteration_def lock_def unlock_def
            then_unlock_def published_consistent_def cursor_nonnull_def)
  qed
qed

lemma start_iteration_consistent:
  assumes "start_iteration chk eid jt w = Inr w'" and "frames_nonnull (frames jt)"
      and "published_consistent w" and "cursor_nonnull w"
  shows "published_consistent w' \<and> cursor_nonnull w'"
proof (cases "epoch (state w) = eid")
  case True
  with assms show ?thesis
    by (simp add: start_iteration_def should_start_iteration_acquire_def)
next
  case False
  with assms(1) have "then_unlock (start_iteration_impl chk eid jt 0 (lock w)) = Inr w'"
    by (simp add: start_iteration_def should_start_iteration_acquire_def
          should_start_iteration_def lock_def)
  then obtain v where "start_iteration_impl chk eid jt 0 (lock w) = Inr v" "w' = unlock v"
    by (auto dest: then_unlock_Inr)
  with start_iteration_impl_consistent [OF _ assms(2)] show ?thesis by simp
qed

lemma finish_iteration_consistent:
  assumes "finish_iteration chk eid jt ctx w = Inr w'"
  shows "published_consistent w' \<and> cursor_nonnull w'"
proof -
  from assms obtain w2 w3 v where
    d: "(if iterator w2 \<noteq> None then iter_process_all chk eid ctx w2 else Inr w2) = Inr w3" and
    u: "update_watermark chk eid w3 = Inr v" and w': "w' = unlock v"
    by (auto simp: finish_iteration_def Let_def split: sum.splits dest: then_unlock_Inr)
  have e: "\<not> cursor_has_unvisited w3 \<and> cursor_nonnull w3"
  proof (cases "iterator w2")
    case None
    with d show ?thesis by (simp add: cursor_has_unvisited_def cursor_nonnull_def)
  next
    case (Some it)
    with d have "process_all_loop chk eid ctx 0 w2 = Inr w3"
      by (simp add: iter_process_all_def)
    from process_all_loop_drains [OF this Some] show ?thesis
      by (auto simp: cursor_has_unvisited_def cursor_nonnull_def has_next_def frames_nonnull_def)
  qed
  with update_watermark_consistent [OF u] w' show ?thesis by simp
qed

lemma reachable_invariant:
  "reachable chk w \<Longrightarrow> published_consistent w \<and> cursor_nonnull w"
proof (induction rule: reachable.induct)
  case (construct e)
  show ?case
    by (simp add: published_consistent_def cursor_nonnull_def StackWatermark_new_def)
next
  case (start_iteration w jt eid w')
  then show ?case using start_iteration_consistent by blast
next
  case (process_one w jt eid w')
  then show ?case using process_one_consistent by blast
next
  case (finish_iteration w jt eid ctx w')
  then show ?case using finish_iteration_consistent by blast
next
  case (is_frame_safe w sender eid fr)
  then show ?case by (simp add: is_frame_safe_def Let_def)
next
  case (last_processed w eid)
  then show ?case by (simp add: last_processed_def Let_def)
qed

subsection \<open>The result of start_iteration_impl\<close>

lemma start_iteration_impl_eq:
  assumes "chk \<longrightarrow> lock_owned w \<and> frames_nonnull (frames jt)"
  shows "start_iteration_impl chk eid jt ctx w =
           Inr (if frames jt \<noteq> [] then
                  w\<lparr>iterator := Some (process_one_times 3 ctx (StackWatermarkIterator_new jt)),
                    watermark :=
                      (if has_next (process_one_times 3 ctx (StackWatermarkIterator_new jt))
                       then callee (process_one_times 3 ctx (StackWatermarkIterator_new jt)) else 0),
                    state := create eid
                      (\<not> has_next (process_one_times 3 ctx (StackWatermarkIterator_new jt))),
                    trace := trace w @ map (\<lambda>f. Process f ctx) (steps_frames 3 (frames jt)) @
                      publish_events eid (process_one_times 3 ctx (StackWatermarkIterator_new jt))\<rparr>
                else
                  w\<lparr>iterator := None, watermark := 0, state := create eid True,
                    trace := trace w @ [Release_store_watermark 0,
                                        Release_store_state (create eid True)]\<rparr>)"
proof (cases "frames jt = []")
  case True
  then show ?thesis
    using assms by (simp add: start_iteration_impl_no_frames update_watermark_no_cursor)
next
  case False
  let ?it3 = "process_one_times 3 ctx (StackWatermarkIterator_new jt)"
  let ?w3 = "w\<lparr>iterator := Some ?it3,
                trace := trace w @ map (\<lambda>f. Process f ctx) (steps_frames 3 (frames jt))\<rparr>"
  have nz: "chk \<longrightarrow> (has_next ?it3 \<longrightarrow> callee ?it3 \<noteq> 0)"
    using assms process_one_times_callee_nonnull [of "StackWatermarkIterator_new jt" 2 ctx]
    by (simp add: StackWatermarkIterator_new_def numeral_3_eq_3)
  have "update_watermark chk eid ?w3 =
          Inr (?w3\<lparr>watermark := (if has_next ?it3 then callee ?it3 else 0),
                  state := create eid (\<not> has_next ?it3),
                  trace := trace ?w3 @ publish_events eid ?it3\<rparr>)"
    by (rule update_watermark_publish) (use assms nz in auto)
  then show ?thesis
    using False by (simp add: start_iteration_impl_frames)
qed

subsection \<open>The ordering assertion at every frame of the drain\<close>







section \<open>Properties\<close>

subsection \<open>is_frame_safe\<close>

text \<open>
  C1, as the code has it: \<^verbatim>\<open>is_frame_safe\<close> returns false while the cached epoch
  differs from the global epoch. When the epoch is current it returns true if the state
  is done; when not done and a cursor exists it returns true exactly when the address of
  the frame (of its sender, for a safepoint blob frame) is strictly below the cursor's
  caller boundary; when not done and no cursor exists it returns true.
\<close>

theorem is_frame_safe_result:
  "fst (is_frame_safe sender eid fr w) =
     (if epoch (state w) \<noteq> eid then False
      else if is_done (state w) then True
      else (case iterator w of
              None \<Rightarrow> True
            | Some it \<Rightarrow> sp (if is_safepoint_blob_frame fr then sender fr else fr) < caller it))"
  by (simp add: is_frame_safe_def lock_def Let_def split: option.splits)

text \<open>
  C1 as stated fails: a controller constructed at epoch 0 is stale once the global epoch
  is 1, and the query answers false.
\<close>

theorem is_frame_safe_stale_counterexample:
  "epoch (state (StackWatermark_new 0)) \<noteq> 1 \<and>
   fst (is_frame_safe (\<lambda>f. f) 1 \<lparr>sp = 16, has_barrier = False, is_safepoint_blob_frame = False\<rparr>
          (StackWatermark_new 0)) = False"
  by (simp add: is_frame_safe_def lock_def StackWatermark_new_def)

subsection \<open>process_one\<close>

text \<open>
  C2, as the code has it: a stale \<^verbatim>\<open>process_one\<close> starts a new iteration under the
  lock, \<^verbatim>\<open>start_iteration_impl(NULL)\<close>, which leaves the state at the global epoch and
  a new cursor over the thread's frames, advanced by three steps (no cursor when the
  thread has no frames). With a current epoch and a cursor it advances the cursor by one
  step, which visits every remaining frame up to and including the first barrier frame
  (all of them when none has a barrier, none when no frame remains), and then publishes
  with \<^verbatim>\<open>update_watermark\<close> before it releases the lock. In a checked build the frames
  are taken to have non-null stack pointers.
\<close>

theorem process_one_step:
  "(epoch (state w) \<noteq> eid \<and> (chk \<longrightarrow> frames_nonnull (frames jt)) \<longrightarrow>
      process_one chk eid jt w = then_unlock (start_iteration_impl chk eid jt 0 (lock w)) \<and>
      (\<exists>w'. process_one chk eid jt w = Inr w' \<and> epoch (state w') = eid \<and>
         iterator w' = (if has_last_Java_frame jt
                        then Some (process_one_times 3 0 (StackWatermarkIterator_new jt))
                        else None))) \<and>
   (epoch (state w) = eid \<and> iterator w = Some it \<and> (chk \<longrightarrow> frames_nonnull (frame_stream it)) \<longrightarrow>
      (\<exists>w'. process_one chk eid jt w = Inr w' \<and>
         iterator w' = Some (advance 0 it) \<and>
         frame_stream (advance 0 it) = step_rest (frame_stream it) \<and>
         trace w' = trace w @ [Lock_acquire] @
                    map (\<lambda>f. Process f 0) (step_frames (frame_stream it)) @
                    publish_events eid (advance 0 it) @ [Lock_release] \<and>
         watermark w' = (if has_next (advance 0 it) then callee (advance 0 it) else 0) \<and>
         state w' = create eid (\<not> has_next (advance 0 it))))"
proof (intro conjI impI)
  assume a: "epoch (state w) \<noteq> eid \<and> (chk \<longrightarrow> frames_nonnull (frames jt))"
  then show p: "process_one chk eid jt w = then_unlock (start_iteration_impl chk eid jt 0 (lock w))"
    by (simp add: process_one_def should_start_iteration_def lock_def)
  have "chk \<longrightarrow> lock_owned (lock w) \<and> frames_nonnull (frames jt)"
    using a by (simp add: lock_def)
  from start_iteration_impl_eq [OF this, of eid 0]
  show "\<exists>w'. process_one chk eid jt w = Inr w' \<and> epoch (state w') = eid \<and>
         iterator w' = (if has_last_Java_frame jt
                        then Some (process_one_times 3 0 (StackWatermarkIterator_new jt))
                        else None)"
    unfolding p by (simp add: then_unlock_def unlock_def has_last_Java_frame_def)
next
  assume a: "epoch (state w) = eid \<and> iterator w = Some it \<and> (chk \<longrightarrow> frames_nonnull (frame_stream it))"
  let ?w1 = "iterator_process_one 0 (lock w)"
  have i1: "iterator ?w1 = Some (advance 0 it)"
    using a by (simp add: iterator_process_one_Some lock_def)
  have "chk \<longrightarrow> lock_owned ?w1 \<and> (has_next (advance 0 it) \<longrightarrow> callee (advance 0 it) \<noteq> 0)"
    using a by (auto simp: iterator_process_one_Some lock_def advance_callee_nonnull)
  note u = update_watermark_publish [OF i1 this, of eid]
  have "process_one chk eid jt w = then_unlock (update_watermark chk eid ?w1)"
    using a by (simp add: process_one_def should_start_iteration_def lock_def)
  with u a show "\<exists>w'. process_one chk eid jt w = Inr w' \<and>
         iterator w' = Some (advance 0 it) \<and>
         frame_stream (advance 0 it) = step_rest (frame_stream it) \<and>
         trace w' = trace w @ [Lock_acquire] @
                    map (\<lambda>f. Process f 0) (step_frames (frame_stream it)) @
                    publish_events eid (advance 0 it) @ [Lock_release] \<and>
         watermark w' = (if has_next (advance 0 it) then callee (advance 0 it) else 0) \<and>
         state w' = create eid (\<not> has_next (advance 0 it))"
    by (simp add: then_unlock_def unlock_def iterator_process_one_Some lock_def)
qed


text \<open>
  C2 as stated fails: a first \<^verbatim>\<open>process_one\<close> starts the iteration on six frames;
  a second one, on the controller the first returned, visits two frames, the frame
  without barrier at 32 and the barrier frame at 48.
\<close>

theorem process_one_visits_two_frames_counterexample:
  "process_one False 1
     \<lparr>frames = [frame_at 16 True, frame_at 24 True, frame_at 28 True,
                 frame_at 32 False, frame_at 48 True, frame_at 64 True]\<rparr>
     (StackWatermark_new 0) =
   Inr \<lparr>state = create 1 False, watermark = 24,
        iterator = Some \<lparr>caller = 28, callee = 24,
          frame_stream = [frame_at 32 False, frame_at 48 True, frame_at 64 True]\<rparr>,
        lock_owned = False,
        trace = [Lock_acquire, Process (frame_at 16 True) 0, Process (frame_at 24 True) 0,
                 Process (frame_at 28 True) 0, Release_store_watermark 24,
                 Release_store_state (create 1 False), Lock_release]\<rparr> \<and>
   process_one False 1
     \<lparr>frames = [frame_at 16 True, frame_at 24 True, frame_at 28 True,
                 frame_at 32 False, frame_at 48 True, frame_at 64 True]\<rparr>
     \<lparr>state = create 1 False, watermark = 24,
      iterator = Some \<lparr>caller = 28, callee = 24,
        frame_stream = [frame_at 32 False, frame_at 48 True, frame_at 64 True]\<rparr>,
      lock_owned = False,
      trace = [Lock_acquire, Process (frame_at 16 True) 0, Process (frame_at 24 True) 0,
               Process (frame_at 28 True) 0, Release_store_watermark 24,
               Release_store_state (create 1 False), Lock_release]\<rparr> =
   Inr \<lparr>state = create 1 False, watermark = 28,
        iterator = Some \<lparr>caller = 48, callee = 28, frame_stream = [frame_at 64 True]\<rparr>,
        lock_owned = False,
        trace = [Lock_acquire, Process (frame_at 16 True) 0, Process (frame_at 24 True) 0,
                 Process (frame_at 28 True) 0, Release_store_watermark 24,
                 Release_store_state (create 1 False), Lock_release,
                 Lock_acquire, Process (frame_at 32 False) 0, Process (frame_at 48 True) 0,
                 Release_store_watermark 28, Release_store_state (create 1 False),
                 Lock_release]\<rparr>"
  by (simp add: run_simps)

theorem process_one_step_witness:
  "epoch (state (StackWatermark_new 0)) \<noteq> 1 \<and>
   frames_nonnull [frame_at 16 True] \<and>
   (\<exists>w'. process_one True 1 \<lparr>frames = [frame_at 16 True]\<rparr> (StackWatermark_new 0) = Inr w' \<and>
      epoch (state w') = 1 \<and>
      iterator w' = Some \<lparr>caller = 0, callee = 0, frame_stream = []\<rparr>) \<and>
   frames_nonnull [frame_at 32 False, frame_at 48 True, frame_at 64 True] \<and>
   (\<exists>w'. process_one True 1 \<lparr>frames = []\<rparr>
       \<lparr>state = create 1 False, watermark = 24,
        iterator = Some \<lparr>caller = 28, callee = 24,
          frame_stream = [frame_at 32 False, frame_at 48 True, frame_at 64 True]\<rparr>,
        lock_owned = False, trace = []\<rparr> = Inr w' \<and>
      iterator w' = Some \<lparr>caller = 48, callee = 28, frame_stream = [frame_at 64 True]\<rparr> \<and>
      trace w' = [Lock_acquire, Process (frame_at 32 False) 0, Process (frame_at 48 True) 0,
                  Release_store_watermark 28, Release_store_state (create 1 False), Lock_release] \<and>
      watermark w' = 28 \<and> state w' = create 1 False)"
proof -
  let ?jt1 = "\<lparr>frames = [frame_at 16 True]\<rparr>"
  let ?it2 = "\<lparr>caller = 28, callee = 24,
          frame_stream = [frame_at 32 False, frame_at 48 True, frame_at 64 True]\<rparr>"
  let ?w2 = "\<lparr>state = create 1 False, watermark = 24, iterator = Some ?it2,
        lock_owned = False, trace = []\<rparr>"
  have stale: "epoch (state (StackWatermark_new 0)) \<noteq> 1"
    by (simp add: StackWatermark_new_def)
  have n1: "frames_nonnull [frame_at 16 True]"
    by (simp add: frames_nonnull_def)
  then have n1': "True \<longrightarrow> frames_nonnull (frames ?jt1)" by simp
  have nn: "frames_nonnull [frame_at 32 False, frame_at 48 True, frame_at 64 True]"
    by (simp add: frames_nonnull_def)
  then have nn': "True \<longrightarrow> frames_nonnull (frame_stream ?it2)" by simp
  have cur: "epoch (state ?w2) = 1" by simp
  have i2: "iterator ?w2 = Some ?it2" by simp
  have it3: "process_one_times 3 0 (StackWatermarkIterator_new ?jt1) =
               \<lparr>caller = 0, callee = 0, frame_stream = []\<rparr>"
    by (simp add: numeral_3_eq_3 advance_eq set_watermark_def has_next_def
          StackWatermarkIterator_new_def)
  have adv: "advance 0 ?it2 = \<lparr>caller = 48, callee = 28, frame_stream = [frame_at 64 True]\<rparr>"
    by (simp add: advance_eq set_watermark_def has_next_def)
  note a = process_one_step [where w = "StackWatermark_new 0" and eid = 1 and chk = True
          and jt = ?jt1, THEN conjunct1, rule_format, OF conjI [OF stale n1'], THEN conjunct2]
  note b = process_one_step [where w = ?w2 and eid = 1 and it = ?it2 and chk = True
          and jt = "\<lparr>frames = []\<rparr>", THEN conjunct2, rule_format,
          OF conjI [OF cur conjI [OF i2 nn']], unfolded adv]
  from a have a': "\<exists>w'. process_one True 1 ?jt1 (StackWatermark_new 0) = Inr w' \<and>
      epoch (state w') = 1 \<and> iterator w' = Some \<lparr>caller = 0, callee = 0, frame_stream = []\<rparr>"
    by (simp add: has_last_Java_frame_def it3)
  from b have b': "\<exists>w'. process_one True 1 \<lparr>frames = []\<rparr> ?w2 = Inr w' \<and>
      iterator w' = Some \<lparr>caller = 48, callee = 28, frame_stream = [frame_at 64 True]\<rparr> \<and>
      trace w' = [Lock_acquire, Process (frame_at 32 False) 0, Process (frame_at 48 True) 0,
                  Release_store_watermark 28, Release_store_state (create 1 False), Lock_release] \<and>
      watermark w' = 28 \<and> state w' = create 1 False"
    by (simp add: publish_events_def has_next_def)
  from stale n1 a' nn b' show ?thesis by blast
qed

subsection \<open>start_iteration_impl\<close>

text \<open>
  C3, as the code has it: on a thread with frames, \<^verbatim>\<open>start_iteration_impl\<close> builds a
  new cursor and advances it by three steps of \<^verbatim>\<open>process_one\<close>, each visiting the
  remaining frames up to and including the next barrier frame; on a thread without frames
  no cursor is kept and the state is marked done. Both ways the call ends with the two
  stores of \<^verbatim>\<open>update_watermark\<close>. In a checked build the lock is taken to be held
  and the stack pointers to be non-null.
\<close>

theorem start_iteration_impl_steps:
  assumes "chk \<longrightarrow> lock_owned w \<and> frames_nonnull (frames jt)"
  shows "\<exists>w'. start_iteration_impl chk eid jt ctx w = Inr w' \<and>
           (if has_last_Java_frame jt then
              iterator w' = Some (process_one_times 3 ctx (StackWatermarkIterator_new jt)) \<and>
              frame_stream (process_one_times 3 ctx (StackWatermarkIterator_new jt)) =
                steps_rest 3 (frames jt) \<and>
              trace w' = trace w @ map (\<lambda>f. Process f ctx) (steps_frames 3 (frames jt)) @
                         publish_events eid (process_one_times 3 ctx (StackWatermarkIterator_new jt))
            else
              iterator w' = None \<and> state w' = create eid True \<and> watermark w' = 0 \<and>
              trace w' = trace w @ [Release_store_watermark 0, Release_store_state (create eid True)])"
  unfolding start_iteration_impl_eq [OF assms]
  by (simp add: has_last_Java_frame_def frame_stream_process_one_times
        StackWatermarkIterator_new_def)

text \<open>
  C3 as stated fails: on five frames of which the first has no barrier, the three steps
  visit four frames.
\<close>

theorem start_iteration_impl_four_frames_counterexample:
  "start_iteration_impl False 1
     \<lparr>frames = [frame_at 16 False, frame_at 24 True, frame_at 32 True,
                 frame_at 40 True, frame_at 48 False]\<rparr> 0
     (lock (StackWatermark_new 0)) =
   Inr \<lparr>state = create 1 False, watermark = 32,
        iterator = Some \<lparr>caller = 40, callee = 32, frame_stream = [frame_at 48 False]\<rparr>,
        lock_owned = True,
        trace = [Lock_acquire, Process (frame_at 16 False) 0, Process (frame_at 24 True) 0,
                 Process (frame_at 32 True) 0, Process (frame_at 40 True) 0,
                 Release_store_watermark 32, Release_store_state (create 1 False)]\<rparr>"
  by (simp add: run_simps)

theorem start_iteration_impl_steps_witness:
  "lock_owned (lock (StackWatermark_new 0)) \<and>
   frames_nonnull [frame_at 16 False, frame_at 24 True, frame_at 32 True,
                   frame_at 40 True, frame_at 48 False] \<and>
   (\<exists>w'. start_iteration_impl True 1
       \<lparr>frames = [frame_at 16 False, frame_at 24 True, frame_at 32 True,
                   frame_at 40 True, frame_at 48 False]\<rparr> 7 (lock (StackWatermark_new 0)) = Inr w' \<and>
      iterator w' = Some \<lparr>caller = 40, callee = 32, frame_stream = [frame_at 48 False]\<rparr> \<and>
      trace w' = [Lock_acquire, Process (frame_at 16 False) 7, Process (frame_at 24 True) 7,
                 Process (frame_at 32 True) 7, Process (frame_at 40 True) 7,
                 Release_store_watermark 32, Release_store_state (create 1 False)])"
proof -
  have l: "lock_owned (lock (StackWatermark_new 0))" by (simp add: lock_def)
  have nn: "frames_nonnull [frame_at 16 False, frame_at 24 True, frame_at 32 True,
                   frame_at 40 True, frame_at 48 False]"
    by (simp add: frames_nonnull_def)
  have it3: "process_one_times 3 7 (StackWatermarkIterator_new
       \<lparr>frames = [frame_at 16 False, frame_at 24 True, frame_at 32 True,
                   frame_at 40 True, frame_at 48 False]\<rparr>) =
       \<lparr>caller = 40, callee = 32, frame_stream = [frame_at 48 False]\<rparr>"
    by (simp add: numeral_3_eq_3 advance_eq set_watermark_def has_next_def
          StackWatermarkIterator_new_def)
  show ?thesis
    using start_iteration_impl_steps [of True "lock (StackWatermark_new 0)"
       "\<lparr>frames = [frame_at 16 False, frame_at 24 True, frame_at 32 True,
                   frame_at 40 True, frame_at 48 False]\<rparr>" 1 7] l nn
    by (auto simp: it3 has_last_Java_frame_def publish_events_def has_next_def
          steps_frames_3 lock_def StackWatermark_new_def)
qed

subsection \<open>The published pair\<close>

text \<open>
  C4: after construction and after every completed public operation the published
  watermark is 0 exactly when the state word reports done. The operations run on threads
  whose frames have non-null stack pointers.
\<close>

theorem watermark_zero_iff_done:
  assumes "reachable chk w"
  shows "(watermark w = 0) = is_done (state w)"
  using reachable_invariant [OF assms] by (simp add: published_consistent_def)

theorem watermark_zero_iff_done_witness:
  "reachable True
     \<lparr>state = create 1 False, watermark = 16,
      iterator = Some \<lparr>caller = 24, callee = 16,
        frame_stream = [frame_at 32 True, frame_at 40 True]\<rparr>,
      lock_owned = False,
      trace = [Lock_acquire, Process (frame_at 8 True) 0, Process (frame_at 16 True) 0,
               Process (frame_at 24 True) 0, Release_store_watermark 16,
               Release_store_state (create 1 False), Lock_release]\<rparr> \<and>
   ((watermark
     \<lparr>state = create 1 False, watermark = 16,
      iterator = Some \<lparr>caller = 24, callee = 16,
        frame_stream = [frame_at 32 True, frame_at 40 True]\<rparr>,
      lock_owned = False,
      trace = [Lock_acquire, Process (frame_at 8 True) 0, Process (frame_at 16 True) 0,
               Process (frame_at 24 True) 0, Release_store_watermark 16,
               Release_store_state (create 1 False), Lock_release]\<rparr> = 0) =
    is_done (state
     \<lparr>state = create 1 False, watermark = 16,
      iterator = Some \<lparr>caller = 24, callee = 16,
        frame_stream = [frame_at 32 True, frame_at 40 True]\<rparr>,
      lock_owned = False,
      trace = [Lock_acquire, Process (frame_at 8 True) 0, Process (frame_at 16 True) 0,
               Process (frame_at 24 True) 0, Release_store_watermark 16,
               Release_store_state (create 1 False), Lock_release]\<rparr>))"
proof -
  let ?jt = "\<lparr>frames = [frame_at 8 True, frame_at 16 True, frame_at 24 True,
                         frame_at 32 True, frame_at 40 True]\<rparr>"
  let ?w = "\<lparr>state = create 1 False, watermark = 16,
      iterator = Some \<lparr>caller = 24, callee = 16,
        frame_stream = [frame_at 32 True, frame_at 40 True]\<rparr>,
      lock_owned = False,
      trace = [Lock_acquire, Process (frame_at 8 True) 0, Process (frame_at 16 True) 0,
               Process (frame_at 24 True) 0, Release_store_watermark 16,
               Release_store_state (create 1 False), Lock_release]\<rparr>"
  have nn: "frames_nonnull (frames ?jt)" by (simp add: frames_nonnull_def)
  have run: "process_one True 1 ?jt (StackWatermark_new 0) = Inr ?w"
    by (simp add: run_simps)
  have r: "reachable True ?w"
    by (rule reachable.process_one [OF reachable.construct nn run])
  from r watermark_zero_iff_done [OF r] show ?thesis by (rule conjI)
qed

subsection \<open>update_watermark\<close>

text \<open>
  C5: \<^verbatim>\<open>update_watermark\<close> performs exactly two release stores, the watermark first
  and the state second. With a cursor that has unvisited frames they are the cursor's
  callee and (epoch, not done); otherwise 0 and (epoch, done). In a checked build the call
  asserts that the lock is held and, in the first case, that the callee is not 0; the
  hypothesis is that these assertions hold.
\<close>

theorem update_watermark_stores:
  assumes "chk \<longrightarrow> lock_owned w \<and> (cursor_has_unvisited w \<longrightarrow> callee (the (iterator w)) \<noteq> 0)"
  shows "\<exists>w'. update_watermark chk eid w = Inr w' \<and>
           iterator w' = iterator w \<and> lock_owned w' = lock_owned w \<and>
           (if cursor_has_unvisited w
            then trace w' = trace w @ [Release_store_watermark (callee (the (iterator w))),
                                       Release_store_state (create eid False)] \<and>
                 watermark w' = callee (the (iterator w)) \<and> state w' = create eid False
            else trace w' = trace w @ [Release_store_watermark 0,
                                       Release_store_state (create eid True)] \<and>
                 watermark w' = 0 \<and> state w' = create eid True)"
  using assms
  by (auto simp: update_watermark_def cursor_has_unvisited_def lock_simps split: option.splits)

theorem update_watermark_stores_witness:
  "lock_owned \<lparr>state = create 1 True, watermark = 0,
       iterator = Some \<lparr>caller = 0, callee = 16,
         frame_stream = [\<lparr>sp = 32, has_barrier = True, is_safepoint_blob_frame = False\<rparr>]\<rparr>,
       lock_owned = True, trace = []\<rparr> \<and>
   (\<exists>w'. update_watermark True 2
       \<lparr>state = create 1 True, watermark = 0,
         iterator = Some \<lparr>caller = 0, callee = 16,
           frame_stream = [\<lparr>sp = 32, has_barrier = True, is_safepoint_blob_frame = False\<rparr>]\<rparr>,
         lock_owned = True, trace = []\<rparr> = Inr w' \<and>
      trace w' = [Release_store_watermark 16, Release_store_state (create 2 False)] \<and>
      watermark w' = 16 \<and> state w' = create 2 False)"
  using update_watermark_stores [of True
     "\<lparr>state = create 1 True, watermark = 0,
       iterator = Some \<lparr>caller = 0, callee = 16,
         frame_stream = [\<lparr>sp = 32, has_barrier = True, is_safepoint_blob_frame = False\<rparr>]\<rparr>,
       lock_owned = True, trace = []\<rparr>" 2]
  by (auto simp: cursor_has_unvisited_def has_next_def)

subsection \<open>finish_iteration\<close>

text \<open>
  C6: \<^verbatim>\<open>finish_iteration\<close> returns, and when it does every frame that was left to
  process (all frames of the thread when the epoch was stale) has been handed to the
  callback in order, the state is (epoch, done), the watermark is 0 and the cursor has no
  frame left. In a release build this holds for every call; in a checked build the
  assertions are met when stack pointers are non-null and the frames are ordered.
\<close>

theorem finish_iteration_completes:
  assumes "chk \<longrightarrow> frames_nonnull (frames jt) \<and> sorted (map sp (frames jt)) \<and>
             (\<forall>it. iterator w = Some it \<longrightarrow> frames_nonnull (frame_stream it) \<and> walk_ordered it)"
  shows "\<exists>w'. finish_iteration chk eid jt ctx w = Inr w' \<and>
           state w' = create eid True \<and> watermark w' = 0 \<and> \<not> cursor_has_unvisited w' \<and>
           processed (trace w') =
             processed (trace w) @ map (\<lambda>f. (f, ctx)) (frames_to_finish eid jt w)"
proof -
  let ?w1 = "lock w"
  have tail_None: "\<exists>w'. then_unlock (update_watermark chk eid v) = Inr w' \<and>
           state w' = create eid True \<and> watermark w' = 0 \<and> \<not> cursor_has_unvisited w' \<and>
           processed (trace w') = processed (trace v)"
    if "iterator v = None" and "lock_owned v" for v
    using that
    by (simp add: update_watermark_no_cursor then_unlock_def unlock_def cursor_has_unvisited_def
          processed_append)
  show ?thesis
  proof (cases "epoch (state w) = eid")
    case True
    show ?thesis
    proof (cases "iterator w")
      case None
      from tail_None [of ?w1] None True show ?thesis
        by (auto simp: finish_iteration_def should_start_iteration_def lock_def frames_to_finish_def
              processed_append)
    next
      case (Some it)
      have i: "iterator ?w1 = Some it" using Some by (simp add: lock_def)
      have "chk \<longrightarrow> lock_owned ?w1 \<and> frames_nonnull (frame_stream it) \<and> walk_ordered it"
        using assms Some by (simp add: lock_def)
      from drain_then_publish [OF i this, of eid ctx] Some True show ?thesis
        by (auto simp: finish_iteration_def should_start_iteration_def lock_def frames_to_finish_def
              processed_append)
    qed
  next
    case False
    show ?thesis
    proof (cases "frames jt = []")
      case True
      have "start_iteration_impl chk eid jt ctx ?w1 =
              Inr (?w1\<lparr>iterator := None, watermark := 0, state := create eid True,
                      trace := trace ?w1 @ [Release_store_watermark 0,
                                            Release_store_state (create eid True)]\<rparr>)"
        using True
        by (simp add: start_iteration_impl_no_frames update_watermark_no_cursor lock_def)
      with tail_None [of "?w1\<lparr>iterator := None, watermark := 0, state := create eid True,
                      trace := trace ?w1 @ [Release_store_watermark 0,
                                            Release_store_state (create eid True)]\<rparr>"]
        False True
      show ?thesis
        by (auto simp: finish_iteration_def should_start_iteration_def lock_def frames_to_finish_def
              processed_append)
    next
      case ne: False
      let ?it3 = "process_one_times 3 ctx (StackWatermarkIterator_new jt)"
      let ?v = "?w1\<lparr>iterator := Some ?it3,
                trace := trace ?w1 @ map (\<lambda>f. Process f ctx) (steps_frames 3 (frames jt))\<rparr>"
      let ?w2 = "?v\<lparr>watermark := (if has_next ?it3 then callee ?it3 else 0),
                  state := create eid (\<not> has_next ?it3),
                  trace := trace ?v @ publish_events eid ?it3\<rparr>"
      have nz: "chk \<longrightarrow> (has_next ?it3 \<longrightarrow> callee ?it3 \<noteq> 0)"
        using assms process_one_times_callee_nonnull [of "StackWatermarkIterator_new jt" 2 ctx]
        by (simp add: StackWatermarkIterator_new_def numeral_3_eq_3)
      have "update_watermark chk eid ?v = Inr ?w2"
        by (rule update_watermark_publish) (use nz in \<open>auto simp: lock_def\<close>)
      then have s: "start_iteration_impl chk eid jt ctx ?w1 = Inr ?w2"
        using ne by (simp add: start_iteration_impl_frames)
      have i2: "iterator ?w2 = Some ?it3" by simp
      have fs3: "frame_stream ?it3 = steps_rest 3 (frames jt)"
        by (simp add: frame_stream_process_one_times StackWatermarkIterator_new_def)
      have "chk \<longrightarrow> lock_owned ?w2 \<and> frames_nonnull (frame_stream ?it3) \<and> walk_ordered ?it3"
        using assms
        by (simp add: lock_def fs3 frames_nonnull_steps_rest walk_ordered_process_one_times
              walk_ordered_new)
      from drain_then_publish [OF i2 this, of eid ctx] obtain w3 w' where
        d: "iter_process_all chk eid ctx ?w2 = Inr w3"
           "then_unlock (update_watermark chk eid w3) = Inr w'"
           "state w' = create eid True" "watermark w' = 0" "\<not> cursor_has_unvisited w'"
           "processed (trace w') = processed (trace ?w2) @ map (\<lambda>f. (f, ctx)) (frame_stream ?it3)"
        by blast
      have "processed (trace ?w2) @ map (\<lambda>f. (f, ctx)) (frame_stream ?it3) =
              processed (trace w) @ map (\<lambda>f. (f, ctx)) (steps_frames 3 (frames jt) @ steps_rest 3 (frames jt))"
        by (simp add: processed_append processed_map_Process fs3 lock_def)
      also have "\<dots> = processed (trace w) @ map (\<lambda>f. (f, ctx)) (frames jt)"
        by (simp only: steps_frames_rest)
      finally have p: "processed (trace w') = processed (trace w) @ map (\<lambda>f. (f, ctx)) (frames jt)"
        using d(6) by simp
      have "finish_iteration chk eid jt ctx w = Inr w'"
        using False s d(1,2)
        by (simp add: finish_iteration_def should_start_iteration_def lock_def)
      with d(3,4,5) p False show ?thesis
        by (simp add: frames_to_finish_def)
    qed
  qed
qed

theorem finish_iteration_completes_witness:
  "frames_nonnull [frame_at 8 True, frame_at 16 True, frame_at 24 True, frame_at 32 True,
                   frame_at 36 False, frame_at 40 True] \<and>
   sorted (map sp [frame_at 8 True, frame_at 16 True, frame_at 24 True, frame_at 32 True,
                   frame_at 36 False, frame_at 40 True]) \<and>
   iterator (StackWatermark_new 1) = None \<and>
   (\<exists>w'. finish_iteration True 2
       \<lparr>frames = [frame_at 8 True, frame_at 16 True, frame_at 24 True, frame_at 32 True,
                   frame_at 36 False, frame_at 40 True]\<rparr> 7 (StackWatermark_new 1) = Inr w' \<and>
      state w' = create 2 True \<and> watermark w' = 0 \<and> \<not> cursor_has_unvisited w' \<and>
      processed (trace w') =
        [(frame_at 8 True, 7), (frame_at 16 True, 7), (frame_at 24 True, 7),
         (frame_at 32 True, 7), (frame_at 36 False, 7), (frame_at 40 True, 7)])"
proof -
  let ?fs = "[frame_at 8 True, frame_at 16 True, frame_at 24 True, frame_at 32 True,
              frame_at 36 False, frame_at 40 True]"
  have nn: "frames_nonnull ?fs" by (simp add: frames_nonnull_def)
  have so: "sorted (map sp ?fs)" by simp
  have i: "iterator (StackWatermark_new 1) = None" by (simp add: StackWatermark_new_def)
  have "True \<longrightarrow> frames_nonnull (frames \<lparr>frames = ?fs\<rparr>) \<and> sorted (map sp (frames \<lparr>frames = ?fs\<rparr>)) \<and>
          (\<forall>it. iterator (StackWatermark_new 1) = Some it \<longrightarrow>
                frames_nonnull (frame_stream it) \<and> walk_ordered it)"
    using nn so i by simp
  from finish_iteration_completes [OF this, of 2 7] nn so i show ?thesis
    by (simp add: frames_to_finish_def StackWatermark_new_def)
qed

subsection \<open>process_all\<close>

text \<open>
  C7: \<^verbatim>\<open>process_all\<close> returns with no frame left, having processed every remaining
  frame in order; its trace is the one the spec describes, with the boundary published
  and the lock released and taken again after every fifth barrier frame, so that no more
  than five barrier frames are processed between two releases of the lock.
\<close>

theorem process_all_yields:
  assumes "iterator w = Some it"
      and "chk \<longrightarrow> lock_owned w \<and> frames_nonnull (frame_stream it) \<and> walk_ordered it"
  shows "\<exists>w'. iter_process_all chk eid ctx w = Inr w' \<and>
           \<not> cursor_has_unvisited w' \<and>
           trace w' = trace w @ drain_events eid ctx 0 it (frame_stream it) \<and>
           processed (drain_events eid ctx 0 it (frame_stream it)) =
             map (\<lambda>f. (f, ctx)) (frame_stream it) \<and>
           lock_hold_bounded 5 0 (drain_events eid ctx 0 it (frame_stream it))"
proof -
  from iter_process_all_run [OF assms, of eid ctx] obtain w' where
    r: "iter_process_all chk eid ctx w = Inr w'" and
    t: "trace w' = trace w @ drain_events eid ctx 0 it (frame_stream it)" and
    i: "iterator w' = Some (drain_cursor it (frame_stream it))"
    by blast
  have "\<not> cursor_has_unvisited w'"
    using i by (simp add: cursor_has_unvisited_def has_next_def frame_stream_drain_cursor)
  moreover have "lock_hold_bounded 5 0 (drain_events eid ctx 0 it (frame_stream it))"
    using lock_hold_bounded_drain_events [of 0 eid ctx it "frame_stream it"] by simp
  ultimately show ?thesis
    using r t by (simp add: processed_drain_events)
qed

theorem process_all_yields_witness:
  "lock_owned \<lparr>state = create 2 True, watermark = 0,
       iterator = Some \<lparr>caller = 0, callee = 0,
         frame_stream = [frame_at 8 True, frame_at 16 True, frame_at 20 False, frame_at 24 True,
                         frame_at 32 True, frame_at 40 True, frame_at 48 True]\<rparr>,
       lock_owned = True, trace = []\<rparr> \<and>
   frames_nonnull [frame_at 8 True, frame_at 16 True, frame_at 20 False, frame_at 24 True,
                   frame_at 32 True, frame_at 40 True, frame_at 48 True] \<and>
   walk_ordered \<lparr>caller = 0, callee = 0,
         frame_stream = [frame_at 8 True, frame_at 16 True, frame_at 20 False, frame_at 24 True,
                         frame_at 32 True, frame_at 40 True, frame_at 48 True]\<rparr> \<and>
   (\<exists>w'. iter_process_all True 2 7
       \<lparr>state = create 2 True, watermark = 0,
         iterator = Some \<lparr>caller = 0, callee = 0,
           frame_stream = [frame_at 8 True, frame_at 16 True, frame_at 20 False, frame_at 24 True,
                           frame_at 32 True, frame_at 40 True, frame_at 48 True]\<rparr>,
         lock_owned = True, trace = []\<rparr> = Inr w' \<and>
      \<not> cursor_has_unvisited w' \<and>
      trace w' = [Process (frame_at 8 True) 7, Process (frame_at 16 True) 7,
                  Process (frame_at 20 False) 7, Process (frame_at 24 True) 7,
                  Process (frame_at 32 True) 7, Process (frame_at 40 True) 7,
                  Release_store_watermark 32, Release_store_state (create 2 False),
                  Lock_release, Lock_acquire,
                  Process (frame_at 48 True) 7])"
proof -
  let ?fs = "[frame_at 8 True, frame_at 16 True, frame_at 20 False, frame_at 24 True,
              frame_at 32 True, frame_at 40 True, frame_at 48 True]"
  let ?it = "\<lparr>caller = 0, callee = 0, frame_stream = ?fs\<rparr>"
  let ?w = "\<lparr>state = create 2 True, watermark = 0, iterator = Some ?it,
             lock_owned = True, trace = []\<rparr>"
  have i: "iterator ?w = Some ?it" by simp
  have nn: "frames_nonnull ?fs" by (simp add: frames_nonnull_def)
  have wo: "walk_ordered ?it" by (simp add: walk_ordered_def)
  have pre: "True \<longrightarrow> lock_owned ?w \<and> frames_nonnull (frame_stream ?it) \<and> walk_ordered ?it"
    using nn wo by simp
  have ev: "drain_events 2 7 0 ?it (frame_stream ?it) =
              [Process (frame_at 8 True) 7, Process (frame_at 16 True) 7,
               Process (frame_at 20 False) 7, Process (frame_at 24 True) 7,
               Process (frame_at 32 True) 7, Process (frame_at 40 True) 7,
               Release_store_watermark 32, Release_store_state (create 2 False),
               Lock_release, Lock_acquire,
               Process (frame_at 48 True) 7]"
    by (simp add: set_watermark_def has_next_def publish_events_def mod_Suc)
  from process_all_yields [OF i pre, of 2 7, unfolded ev] nn wo show ?thesis
    by simp
qed

subsection \<open>The boundary pair\<close>

text \<open>
  C8: on a stack of non-null addresses, the boundary of a new cursor after \<open>n\<close> single
  steps is the two-slot ring run over the addresses of the first \<open>n\<close> barrier frames
  that have a frame after them, and after a drain it is the ring run over all of them:
  only barrier frames are folded, the first fold sets the callee, the second the caller,
  every later one shifts.
\<close>

theorem boundary_ring:
  assumes "frames_nonnull (frames jt)"
  shows "boundary (process_one_times n c (StackWatermarkIterator_new jt)) =
           ring_folds 0 (0, 0) (take n (folded_addresses (frames jt))) \<and>
         (\<forall>w. iterator w = Some (process_one_times n c (StackWatermarkIterator_new jt)) \<longrightarrow>
            (\<exists>w' it'. iter_process_all False eid ctx w = Inr w' \<and> iterator w' = Some it' \<and>
               boundary it' = ring_folds 0 (0, 0) (folded_addresses (frames jt))))"
proof (intro conjI allI impI)
  let ?it = "process_one_times n c (StackWatermarkIterator_new jt)"
  have fs: "frame_stream (StackWatermarkIterator_new jt) = frames jt"
    by (simp add: StackWatermarkIterator_new_def)
  have r: "ring_inv (take n (folded_addresses (frames jt))) ?it"
    using ring_inv_process_one_times [OF ring_inv_new, of jt n c] assms by (simp add: fs)
  then show "boundary ?it = ring_folds 0 (0, 0) (take n (folded_addresses (frames jt)))"
    by (simp add: ring_inv_def)
  fix w :: StackWatermark
  assume i: "iterator w = Some ?it"
  from iter_process_all_run [where chk = False and w = w and it = ?it and eid = eid and ctx = ctx]
    i obtain w' where
    w': "iter_process_all False eid ctx w = Inr w'"
        "iterator w' = Some (drain_cursor ?it (frame_stream ?it))"
    by blast
  have "frames_nonnull (frame_stream ?it)"
    using assms by (simp add: frame_stream_process_one_times fs frames_nonnull_steps_rest)
  from ring_inv_drain_cursor [OF r this]
  have "ring_inv (folded_addresses (frames jt)) (drain_cursor ?it (frame_stream ?it))"
    by (simp add: frame_stream_process_one_times fs folded_addresses_steps_rest)
  with w' show "\<exists>w' it'. iter_process_all False eid ctx w = Inr w' \<and> iterator w' = Some it' \<and>
               boundary it' = ring_folds 0 (0, 0) (folded_addresses (frames jt))"
    by (simp add: ring_inv_def)
qed

theorem boundary_ring_witness:
  "frames_nonnull [frame_at 8 True, frame_at 12 False, frame_at 16 True, frame_at 24 True,
                   frame_at 32 True, frame_at 40 True] \<and>
   folded_addresses [frame_at 8 True, frame_at 12 False, frame_at 16 True, frame_at 24 True,
                     frame_at 32 True, frame_at 40 True] = [8, 16, 24, 32] \<and>
   boundary (process_one_times 3 0 (StackWatermarkIterator_new
     \<lparr>frames = [frame_at 8 True, frame_at 12 False, frame_at 16 True, frame_at 24 True,
                 frame_at 32 True, frame_at 40 True]\<rparr>)) = (16, 24) \<and>
   (\<exists>w' it'. iter_process_all False 1 0
       ((StackWatermark_new 1)\<lparr>iterator := Some (process_one_times 3 0 (StackWatermarkIterator_new
          \<lparr>frames = [frame_at 8 True, frame_at 12 False, frame_at 16 True, frame_at 24 True,
                      frame_at 32 True, frame_at 40 True]\<rparr>))\<rparr>) = Inr w' \<and>
      iterator w' = Some it' \<and> boundary it' = (24, 32))"
proof -
  let ?fs = "[frame_at 8 True, frame_at 12 False, frame_at 16 True, frame_at 24 True,
              frame_at 32 True, frame_at 40 True]"
  let ?jt = "\<lparr>frames = ?fs\<rparr>"
  have nn: "frames_nonnull (frames ?jt)" by (simp add: frames_nonnull_def)
  have fa: "folded_addresses (frames ?jt) = [8, 16, 24, 32]" by (simp add: folded_addresses_def)
  have r3: "ring_folds 0 (0, 0) (take 3 (folded_addresses (frames ?jt))) = (16, 24)"
    by (subst fa) (simp add: ring_fold_def)
  have r4: "ring_folds 0 (0, 0) (folded_addresses (frames ?jt)) = (24, 32)"
    by (subst fa) (simp add: ring_fold_def)
  note t = boundary_ring [OF nn, of 3 0 1 0, unfolded r3 r4]
  from t have a: "boundary (process_one_times 3 0 (StackWatermarkIterator_new ?jt)) = (16, 24)"
    by (rule conjunct1)
  from t have b: "\<exists>w' it'. iter_process_all False 1 0
       ((StackWatermark_new 1)\<lparr>iterator := Some (process_one_times 3 0 (StackWatermarkIterator_new ?jt))\<rparr>) = Inr w' \<and>
      iterator w' = Some it' \<and> boundary it' = (24, 32)"
    by simp
  from nn fa a b show ?thesis by simp
qed

subsection \<open>The ordering assertion\<close>



text \<open>
  C10: \<^verbatim>\<open>process_one\<close> on a controller whose epoch is current and that has no cursor
  takes and releases the lock and does nothing else: the state word and the watermark are
  unchanged and no store of \<^verbatim>\<open>update_watermark\<close> appears in the trace.
\<close>

theorem process_one_current_no_cursor:
  assumes "epoch (state w) = eid" and "iterator w = None"
  shows "\<exists>w'. process_one chk eid jt w = Inr w' \<and> state w' = state w \<and>
           watermark w' = watermark w \<and> iterator w' = None \<and>
           trace w' = trace w @ [Lock_acquire, Lock_release]"
  using assms
  by (simp add: process_one_def should_start_iteration_def lock_simps)

theorem process_one_current_no_cursor_witness:
  "epoch (state (StackWatermark_new 3)) = 3 \<and> iterator (StackWatermark_new 3) = None \<and>
   (\<exists>w'. process_one True 3 \<lparr>frames = []\<rparr> (StackWatermark_new 3) = Inr w' \<and>
      state w' = create 3 True \<and> watermark w' = 0 \<and> iterator w' = None \<and>
      trace w' = [Lock_acquire, Lock_release])"
proof -
  have e: "epoch (state (StackWatermark_new 3)) = 3" by (simp add: StackWatermark_new_def)
  have i: "iterator (StackWatermark_new 3) = None" by (simp add: StackWatermark_new_def)
  show ?thesis
    using process_one_current_no_cursor [OF e i, of True "\<lparr>frames = []\<rparr>"] e i
    by (simp add: StackWatermark_new_def)
qed

end
